theory Spec2Isabelle
  imports Main "HOL-Library.Sublist"
begin

section \<open>Strings and the location prefix\<close>

text \<open>
  Go strings are byte sequences; they are modelled as \<open>string\<close> (a list of 8-bit
  characters). \<open>newline\<close> is the byte written by \<open>b.WriteRune('\n')\<close>.
\<close>

definition newline :: char where
  "newline = CHR 0x0A"

text \<open>
  \<open>strings.LastIndex(s, sep)\<close> for a one-byte separator: the index of the last
  occurrence of the separator, or \<open>-1\<close> when there is none.
\<close>

definition LastIndex :: "string \<Rightarrow> char \<Rightarrow> int" where
  "LastIndex s sep =
     fst (foldl (\<lambda>(found, i) c. (if c = sep then i else found, i + 1)) (- 1, 0) s)"

text \<open>The verb \<open>%d\<close> of \<open>fmt.Sprintf\<close>: an integer in decimal.\<close>

fun decimal :: "nat \<Rightarrow> string" where
  "decimal n =
     (if n < 10 then [''0123456789'' ! n]
      else decimal (n div 10) @ [''0123456789'' ! (n mod 10)])"

declare decimal.simps [simp del]

definition format_d :: "int \<Rightarrow> string" where
  "format_d i = (if i < 0 then CHR ''-'' # decimal (nat (- i)) else decimal (nat i))"

text \<open>
  \<open>runtime.Caller(3)\<close> answers with the file and line of the frame three levels above
  \<open>decorate\<close>, or with \<open>ok = false\<close>. The frame is a fact of the call stack, so the
  model takes it as an argument: \<open>Some (file, line)\<close> when \<open>ok\<close>, \<open>None\<close> otherwise.
  Every recording method of the context is called directly by the check function, which
  puts the check function's own call site at depth three in each case.
\<close>

type_synonym callsite = "(string \<times> int) option"

definition decorate :: "callsite \<Rightarrow> string \<Rightarrow> string" where
  "decorate site s =
     (case (case site of
              Some (file, line) \<Rightarrow>
                (let n = LastIndex file (CHR ''/'')
                 in (if n \<ge> 0 then drop (nat (n + 1)) file else file, line))
            | None \<Rightarrow> (''???'', 1))
      of (file, line) \<Rightarrow> file @ '':'' @ format_d line @ '': '' @ s)"

section \<open>Deduplication of the log\<close>

text \<open>
  The first loop of \<open>dedup\<close> counts every line in a map (a missing key reads as the
  zero value); the second loop writes a line and its newline when the line is still a key
  of the map, and deletes the key.
\<close>

definition dedup_count :: "string list \<Rightarrow> (string \<rightharpoonup> int)" where
  "dedup_count a =
     fold (\<lambda>s m. m(s \<mapsto> (case m s of None \<Rightarrow> 0 | Some c \<Rightarrow> c) + 1)) a Map.empty"

definition dedup_write :: "string \<Rightarrow> (string \<rightharpoonup> int) \<times> string \<Rightarrow> (string \<rightharpoonup> int) \<times> string" where
  "dedup_write s mb =
     (case mb of (m, b) \<Rightarrow>
        (case m s of
           Some c \<Rightarrow> (m(s := None), b @ s @ [newline])
         | None \<Rightarrow> (m, b)))"

definition dedup :: "string list \<Rightarrow> string" where
  "dedup a =
     (if length a = 0 then ''''
      else snd (fold dedup_write a (dedup_count a, '''')))"

text \<open>
  What the specification asks of the output, in its own words: every distinct line once,
  in the order of first occurrence.
\<close>

primrec first_seen :: "'a list \<Rightarrow> 'a list" where
  "first_seen [] = []"
| "first_seen (x # xs) = x # filter (\<lambda>y. y \<noteq> x) (first_seen xs)"

definition first_index :: "'a list \<Rightarrow> 'a \<Rightarrow> nat" where
  "first_index xs x = length (takeWhile (\<lambda>y. y \<noteq> x) xs)"

section \<open>How a call ends\<close>

text \<open>
  A call either returns to its caller or unwinds its goroutine: \<open>runtime.Goexit\<close>
  terminates the goroutine that calls it, after running the deferred calls, and affects no
  other goroutine.
\<close>

datatype 'a ctl = Returns 'a | Goexit

section \<open>The attempt context\<close>

record R =
  fail :: bool
  "output" :: "string list"

definition R_FailNow :: "R \<Rightarrow> unit ctl \<times> R" where
  "R_FailNow r = (Goexit, r\<lparr>fail := True\<rparr>)"

definition R_log :: "callsite \<Rightarrow> string \<Rightarrow> R \<Rightarrow> R" where
  "R_log site s r = r\<lparr>output := output r @ [decorate site s]\<rparr>"

text \<open>
  \<open>Fatal\<close> and \<open>Fatalf\<close> format their arguments with \<open>fmt.Sprint\<close> and
  \<open>fmt.Sprintf\<close>; the model takes the formatted message.
\<close>

definition R_Fatal :: "callsite \<Rightarrow> string \<Rightarrow> R \<Rightarrow> unit ctl \<times> R" where
  "R_Fatal site msg r = R_FailNow (R_log site msg r)"

definition R_Fatalf :: "callsite \<Rightarrow> string \<Rightarrow> R \<Rightarrow> unit ctl \<times> R" where
  "R_Fatalf site msg r = R_FailNow (R_log site msg r)"

definition R_Error :: "callsite \<Rightarrow> string \<Rightarrow> R \<Rightarrow> unit ctl \<times> R" where
  "R_Error site msg r = (Returns (), (R_log site msg r)\<lparr>fail := True\<rparr>)"

text \<open>An error value is \<open>None\<close> for \<open>nil\<close>, or \<open>Some m\<close> with \<open>m\<close> what \<open>err.Error()\<close> returns.\<close>

definition R_Check :: "callsite \<Rightarrow> string option \<Rightarrow> R \<Rightarrow> unit ctl \<times> R" where
  "R_Check site err r =
     (case err of
        Some m \<Rightarrow> R_FailNow (R_log site m r)
      | None \<Rightarrow> (Returns (), r))"

section \<open>Time and the world\<close>

text \<open>
  An instant is a number of nanoseconds since the zero \<open>time.Time\<close>; a duration is a
  number of nanoseconds (\<open>time.Duration\<close> is an \<open>int64\<close>, and every statement below
  holds for all integers). The world holds the clock and the state of the reporter.
\<close>

record 't world =
  clock :: int
  reporter :: 't

definition Time_IsZero :: "int \<Rightarrow> bool" where
  "Time_IsZero t = (t = 0)"

definition Time_Add :: "int \<Rightarrow> int \<Rightarrow> int" where
  "Time_Add t d = t + d"

definition Time_After :: "int \<Rightarrow> int \<Rightarrow> bool" where
  "Time_After t u = (t > u)"

definition time_Now :: "'t world \<Rightarrow> int" where
  "time_Now w = clock w"

text \<open>
  \<open>time.Sleep(d)\<close> pauses for at least \<open>d\<close> and returns at once for a negative or zero
  \<open>d\<close>. The model advances the clock by exactly \<open>max 0 d\<close>; whatever more passes before
  the clock is read again is time of the attempt that follows (see \<open>Elapse\<close>).
\<close>

definition time_Sleep :: "int \<Rightarrow> 't world \<Rightarrow> 't world" where
  "time_Sleep d w = w\<lparr>clock := clock w + max 0 d\<rparr>"

section \<open>The check function\<close>

text \<open>
  A check function reaches its context only through the exported methods, so one
  invocation is the sequence of calls it makes, with the time that passes meanwhile.
  A check function is a script for each invocation, indexed by the number of earlier
  invocations.
\<close>

datatype action =
    CallFailNow
  | CallFatal callsite string
  | CallFatalf callsite string
  | CallError callsite string
  | CallCheck callsite "string option"
  | Elapse nat

fun perform :: "action \<Rightarrow> R \<Rightarrow> 't world \<Rightarrow> unit ctl \<times> R \<times> 't world" where
  "perform CallFailNow r w = (case R_FailNow r of (c, r') \<Rightarrow> (c, r', w))"
| "perform (CallFatal site msg) r w = (case R_Fatal site msg r of (c, r') \<Rightarrow> (c, r', w))"
| "perform (CallFatalf site msg) r w = (case R_Fatalf site msg r of (c, r') \<Rightarrow> (c, r', w))"
| "perform (CallError site msg) r w = (case R_Error site msg r of (c, r') \<Rightarrow> (c, r', w))"
| "perform (CallCheck site err) r w = (case R_Check site err r of (c, r') \<Rightarrow> (c, r', w))"
| "perform (Elapse n) r w = (Returns (), r, w\<lparr>clock := clock w + int n\<rparr>)"

fun exec :: "action list \<Rightarrow> R \<Rightarrow> 't world \<Rightarrow> unit ctl \<times> R \<times> 't world" where
  "exec [] r w = (Returns (), r, w)"
| "exec (a # as) r w =
     (case perform a r w of
        (Goexit, r', w') \<Rightarrow> (Goexit, r', w')
      | (Returns u, r', w') \<Rightarrow> exec as r' w')"

text \<open>The calls that end the attempt at once.\<close>

fun abrupt :: "action \<Rightarrow> bool" where
  "abrupt CallFailNow = True"
| "abrupt (CallFatal site msg) = True"
| "abrupt (CallFatalf site msg) = True"
| "abrupt (CallCheck site (Some m)) = True"
| "abrupt (CallCheck site None) = False"
| "abrupt (CallError site msg) = False"
| "abrupt (Elapse n) = False"

text \<open>The calls that record a failure.\<close>

fun failing :: "action \<Rightarrow> bool" where
  "failing (CallError site msg) = True"
| "failing a = abrupt a"

text \<open>The time a script lets pass when it runs to its end.\<close>

fun cost :: "action list \<Rightarrow> nat" where
  "cost [] = 0"
| "cost (Elapse n # as) = n + cost as"
| "cost (a # as) = cost as"

text \<open>The time a script lets pass before its first abrupt call.\<close>

fun spent :: "action list \<Rightarrow> nat" where
  "spent [] = 0"
| "spent (a # as) =
     (if abrupt a then 0
      else (case a of Elapse n \<Rightarrow> n | _ \<Rightarrow> 0) + spent as)"

section \<open>The reporter and the policy\<close>

text \<open>
  The interface \<open>T\<close>: two operations on the reporter's own state, each of which may
  return or, as \<open>testing.T.FailNow\<close> does, unwind the calling goroutine.
\<close>

record 't T =
  T_Log :: "string \<Rightarrow> 't \<Rightarrow> unit ctl \<times> 't"
  T_FailNow :: "'t \<Rightarrow> unit ctl \<times> 't"

text \<open>The reporter of the tests: \<open>Log\<close> does nothing, \<open>FailNow\<close> sets \<open>failed\<close>.\<close>

definition fakeT :: "bool T" where
  "fakeT = \<lparr>T_Log = (\<lambda>args failed. (Returns (), failed)),
            T_FailNow = (\<lambda>failed. (Returns (), True))\<rparr>"

text \<open>A reporter that writes down the calls it receives.\<close>

datatype event = LogCall string | FailNowCall

definition tracer :: "event list T" where
  "tracer = \<lparr>T_Log = (\<lambda>args es. (Returns (), es @ [LogCall args])),
             T_FailNow = (\<lambda>es. (Returns (), es @ [FailNowCall]))\<rparr>"

text \<open>A reporter whose \<open>FailNow\<close> unwinds the caller, as the one of package testing does.\<close>

definition exitingT :: "event list T" where
  "exitingT = \<lparr>T_Log = (\<lambda>args es. (Returns (), es @ [LogCall args])),
               T_FailNow = (\<lambda>es. (Goexit, es @ [FailNowCall]))\<rparr>"

definition returning :: "'t T \<Rightarrow> bool" where
  "returning t =
     ((\<forall>args s. fst (T_Log t args s) = Returns ()) \<and> (\<forall>s. fst (T_FailNow t s) = Returns ()))"

text \<open>
  The interface \<open>Retryer\<close>: \<open>Next\<close> takes the policy's state, the callback and the
  world.
\<close>

type_synonym ('p, 't) Retryer =
  "'p \<Rightarrow> ('t world \<Rightarrow> unit ctl \<times> 't world) \<Rightarrow> 't world \<Rightarrow> bool ctl \<times> 'p \<times> 't world"

record Timer =
  Timeout :: int
  Wait :: int
  stop :: int

definition Timer_Next :: "(Timer, 't) Retryer" where
  "Timer_Next r fail_cb w =
     (if Time_IsZero (stop r) then
        (Returns True, r\<lparr>stop := Time_Add (time_Now w) (Timeout r)\<rparr>, w)
      else if Time_After (time_Now w) (stop r) then
        (case fail_cb w of
           (Goexit, w') \<Rightarrow> (Goexit, r, w')
         | (Returns u, w') \<Rightarrow> (Returns False, r, w'))
      else (Returns True, r, time_Sleep (Wait r) w))"

section \<open>The loop\<close>

text \<open>The closure \<open>fail\<close> of \<open>run\<close>, which reads the log of the context when it is called.\<close>

definition run_fail :: "'t T \<Rightarrow> R \<Rightarrow> 't world \<Rightarrow> unit ctl \<times> 't world" where
  "run_fail t rr w =
     (let out = dedup (output rr) in
      case (if out \<noteq> '''' then T_Log t out (reporter w) else (Returns (), reporter w)) of
        (Goexit, s) \<Rightarrow> (Goexit, w\<lparr>reporter := s\<rparr>)
      | (Returns u, s) \<Rightarrow> (case T_FailNow t s of (c, s') \<Rightarrow> (c, w\<lparr>reporter := s'\<rparr>)))"

text \<open>
  \<open>go func() { defer wg.Done(); f(rr) }(); wg.Wait()\<close>: the attempt runs on a goroutine
  of its own. Whether \<open>f\<close> returns or unwinds that goroutine, the deferred \<open>wg.Done\<close>
  runs and \<open>wg.Wait\<close> returns in the controller, which sees the context and the world
  as the attempt left them.
\<close>

definition go_wait :: "unit ctl \<times> R \<times> 't world \<Rightarrow> R \<times> 't world" where
  "go_wait res = snd res"

text \<open>
  How \<open>run\<close> ends: by \<open>break\<close>, by \<open>Next\<close> returning false, or, when the callback
  unwinds the controller inside \<open>Next\<close>, not by returning at all.
\<close>

datatype ending = Succeeded | GaveUp | Unwound

text \<open>
  The result of a run: the final state, and the contexts at the start and at the end of
  every invocation of the check function, in order. The list is an observation of the
  run; apart from numbering the invocations it takes no part in it.
\<close>

record ('p, 't) result =
  how :: ending
  policy :: 'p
  ctx :: R
  final :: "'t world"
  attempts :: "(R \<times> R) list"

text \<open>
  The loop can go on forever (a policy that never gives up, a clock that does not move),
  so it takes fuel: \<open>None\<close> says that the loop is still running after that many
  iterations.
\<close>

fun run_loop ::
  "nat \<Rightarrow> 't T \<Rightarrow> ('p, 't) Retryer \<Rightarrow> (nat \<Rightarrow> action list) \<Rightarrow> 'p \<Rightarrow> R \<Rightarrow> 't world \<Rightarrow> (R \<times> R) list
     \<Rightarrow> ('p, 't) result option" where
  "run_loop 0 t next f p rr w tr = None"
| "run_loop (Suc n) t next f p rr w tr =
     (case next p (run_fail t rr) w of
        (Goexit, p', w') \<Rightarrow>
          Some \<lparr>how = Unwound, policy = p', ctx = rr, final = w', attempts = tr\<rparr>
      | (Returns again, p', w') \<Rightarrow>
          if again then
            (case go_wait (exec (f (length tr)) rr w') of
               (rr', w'') \<Rightarrow>
                 if fail rr' then
                   run_loop n t next f p' (rr'\<lparr>fail := False\<rparr>) w'' (tr @ [(rr, rr')])
                 else
                   Some \<lparr>how = Succeeded, policy = p', ctx = rr', final = w'',
                         attempts = tr @ [(rr, rr')]\<rparr>)
          else Some \<lparr>how = GaveUp, policy = p', ctx = rr, final = w', attempts = tr\<rparr>)"

definition run ::
  "nat \<Rightarrow> 't T \<Rightarrow> ('p, 't) Retryer \<Rightarrow> (nat \<Rightarrow> action list) \<Rightarrow> 'p \<Rightarrow> 't world
     \<Rightarrow> ('p, 't) result option" where
  "run n t r f p w = run_loop n t r f p \<lparr>fail = False, output = []\<rparr> w []"

section \<open>Observations of a run\<close>

text \<open>
  A list of attempts is linked when every attempt but the last ended with the fail flag
  set, and the attempt after it started from the context it left, with only the flag
  cleared.
\<close>

fun linked :: "(R \<times> R) list \<Rightarrow> bool" where
  "linked (x # y # zs) = (fail (snd x) \<and> fst y = (snd x)\<lparr>fail := False\<rparr> \<and> linked (y # zs))"
| "linked zs = True"

text \<open>The number of invocations of the check function in a run.\<close>

definition calls :: "('p, 't) result \<Rightarrow> nat" where
  "calls res = length (attempts res)"

text \<open>The time from the start of the loop, in the world \<open>w\<close>, to its end.\<close>

definition elapsed :: "'t world \<Rightarrow> ('p, 't) result \<Rightarrow> int" where
  "elapsed w res = clock (final res) - clock w"

text \<open>
  The check functions of the tests: \<open>TestRunWithFail\<close> counts the call and calls
  \<open>r.Fatalf("fail")\<close>, \<open>TestRunWithPass\<close> only counts the call. The time an
  invocation takes is an argument.
\<close>

definition failing_check :: "nat \<Rightarrow> nat \<Rightarrow> action list" where
  "failing_check d i = [Elapse d, CallFatalf (Some (''/go/src/retry/retry_test.go'', 19)) ''fail'']"

definition passing_check :: "nat \<Rightarrow> nat \<Rightarrow> action list" where
  "passing_check d i = [Elapse d]"

text \<open>
  A check function with code after an abrupt call:
  \<open>func(r *retry.R) { r.Fatal("not ready"); r.Error("unreachable") }\<close>.
\<close>

definition aborting_check :: "nat \<Rightarrow> action list" where
  "aborting_check i =
     [CallFatal (Some (''/go/src/app/app_test.go'', 12)) ''not ready'',
      CallError (Some (''/go/src/app/app_test.go'', 13)) ''unreachable'']"

text \<open>
  A check function that fails abruptly on its first invocation, with code after the
  abrupt call, and passes afterwards.
\<close>

definition recovering_check :: "nat \<Rightarrow> action list" where
  "recovering_check i =
     (if i = 0 then
        [CallFatal (Some (''/go/src/app/app_test.go'', 12)) ''not ready'',
         CallError (Some (''/go/src/app/app_test.go'', 13)) ''unreachable'']
      else [Elapse 5])"

text \<open>The state of the reporter at the end of a run.\<close>

definition reported :: "('p, 't) result \<Rightarrow> 't" where
  "reported res = reporter (final res)"

section \<open>Properties of the location prefix\<close>

lemma LastIndex_foldl_snd:
  "snd (foldl (\<lambda>(found, i) c. (if c = sep then i else found, i + 1)) (found, i) s) = i + int (length s)"
  by (induction s arbitrary: found i) simp_all

lemma LastIndex_foldl_absent:
  "sep \<notin> set s \<Longrightarrow>
     fst (foldl (\<lambda>(found, i) c. (if c = sep then i else found, i + 1)) (found, i) s) = found"
  by (induction s arbitrary: found i) auto

lemma LastIndex_absent: "sep \<notin> set s \<Longrightarrow> LastIndex s sep = - 1"
  by (simp add: LastIndex_def LastIndex_foldl_absent)

lemma LastIndex_last:
  assumes "sep \<notin> set base"
  shows "LastIndex (dir @ sep # base) sep = int (length dir)"
proof -
  let ?step = "\<lambda>(found, i) c. (if c = sep then i else found, i + 1)"
  obtain found i :: int where eq: "foldl ?step (- 1, 0) dir = (found, i)"
    by (meson surj_pair)
  have "i = int (length dir)"
    using LastIndex_foldl_snd [of sep "- 1" 0 dir] eq by simp
  then show ?thesis
    using assms eq by (simp add: LastIndex_def LastIndex_foldl_absent)
qed

text \<open>
  The prefix is the last element of the path of the file, its line, and \<open>???:1\<close> when
  the caller is not known.
\<close>

lemma decorate_path:
  "CHR ''/'' \<notin> set base \<Longrightarrow>
     decorate (Some (dir @ CHR ''/'' # base, line)) s = base @ '':'' @ format_d line @ '': '' @ s"
proof -
  assume "CHR ''/'' \<notin> set base"
  then have n: "LastIndex (dir @ CHR ''/'' # base) (CHR ''/'') = int (length dir)"
    by (rule LastIndex_last)
  have "nat (int (length dir) + 1) = Suc (length dir)"
    by simp
  then show ?thesis
    by (simp add: decorate_def n)
qed

lemma decorate_plain:
  "CHR ''/'' \<notin> set file \<Longrightarrow>
     decorate (Some (file, line)) s = file @ '':'' @ format_d line @ '': '' @ s"
  by (simp add: decorate_def LastIndex_absent)

lemma decorate_unknown: "decorate None s = ''???:1: '' @ s"
  by (simp add: decorate_def format_d_def decimal.simps)

section \<open>Properties of the deduplication\<close>

lemma dom_dedup_count_fold:
  "dom (fold (\<lambda>s m. m(s \<mapsto> (case m s of None \<Rightarrow> 0 | Some c \<Rightarrow> c) + (1::int))) a m) = dom m \<union> set a"
  by (induction a arbitrary: m) auto

lemma dom_dedup_count: "dom (dedup_count a) = set a"
  by (simp add: dedup_count_def dom_dedup_count_fold)

lemma set_first_seen: "set (first_seen xs) = set xs"
  by (induction xs) auto

lemma distinct_first_seen: "distinct (first_seen xs)"
  by (induction xs) auto

lemma fold_dedup_write:
  "snd (fold dedup_write xs (m, b)) =
     b @ concat (map (\<lambda>s. s @ [newline]) (filter (\<lambda>s. s \<in> dom m) (first_seen xs)))"
proof (induction xs arbitrary: m b)
  case Nil
  show ?case by simp
next
  case (Cons x xs)
  show ?case
  proof (cases "m x")
    case None
    then have "fold dedup_write (x # xs) (m, b) = fold dedup_write xs (m, b)"
      by (simp add: dedup_write_def)
    moreover from None have "filter (\<lambda>s. s \<in> dom m) (first_seen (x # xs)) = filter (\<lambda>s. s \<in> dom m) (first_seen xs)"
      by (auto simp: domIff intro!: filter_cong)
    ultimately show ?thesis
      using Cons.IH [of m b] by simp
  next
    case (Some c)
    let ?line = "\<lambda>s. s @ [newline]"
    have keep: "filter (\<lambda>s. s \<in> dom m) (first_seen (x # xs))
            = x # filter (\<lambda>s. s \<in> dom m - {x}) (first_seen xs)"
      using Some by (auto intro!: filter_cong)
    have "snd (fold dedup_write (x # xs) (m, b))
            = snd (fold dedup_write xs (m(x := None), b @ x @ [newline]))"
      using Some by (simp add: dedup_write_def)
    also have "\<dots> = (b @ x @ [newline])
            @ concat (map ?line (filter (\<lambda>s. s \<in> dom (m(x := None))) (first_seen xs)))"
      by (rule Cons.IH)
    also have "\<dots> = b @ concat (map ?line (filter (\<lambda>s. s \<in> dom m) (first_seen (x # xs))))"
      unfolding keep by simp
    finally show ?thesis .
  qed
qed

lemma dedup_first_seen: "dedup a = concat (map (\<lambda>s. s @ [newline]) (first_seen a))"
proof (cases a)
  case Nil
  then show ?thesis by (simp add: dedup_def)
next
  case (Cons x xs)
  have "filter (\<lambda>s. s \<in> set a) (first_seen a) = first_seen a"
    by (simp add: filter_id_conv set_first_seen)
  then show ?thesis
    using Cons fold_dedup_write [of a "dedup_count a" "''''"]
    by (simp add: dedup_def dom_dedup_count)
qed

lemma first_index_Cons:
  "first_index (x # xs) y = (if y = x then 0 else Suc (first_index xs y))"
  by (simp add: first_index_def)

lemma first_seen_in_order:
  "sorted_wrt (\<lambda>x y. first_index xs x < first_index xs y) (first_seen xs)"
proof (induction xs)
  case Nil
  show ?case by simp
next
  case (Cons x xs)
  have "sorted_wrt (\<lambda>a b. first_index xs a < first_index xs b) (filter (\<lambda>y. y \<noteq> x) (first_seen xs))"
    using Cons.IH by (rule sorted_wrt_filter)
  then have "sorted_wrt (\<lambda>a b. first_index (x # xs) a < first_index (x # xs) b)
               (filter (\<lambda>y. y \<noteq> x) (first_seen xs))"
    by (rule sorted_wrt_mono_rel [rotated]) (simp add: first_index_Cons)
  then show ?case
    by (simp add: first_index_Cons)
qed

text \<open>
  C2: for every sequence of recorded lines, the output of \<open>dedup\<close> is the
  concatenation of the distinct lines, each once, in the order of their first occurrence,
  each followed by a newline. For the lines a, b, a, c, b the output is a, b, c with a
  newline after each, and for no lines at all it is the empty string.
\<close>

theorem dedup_spec:
  "dedup a = concat (map (\<lambda>s. s @ [newline]) (first_seen a))
   \<and> set (first_seen a) = set a
   \<and> distinct (first_seen a)
   \<and> sorted_wrt (\<lambda>x y. first_index a x < first_index a y) (first_seen a)
   \<and> dedup [''a'', ''b'', ''a'', ''c'', ''b''] = [CHR ''a'', CHR 0x0A, CHR ''b'', CHR 0x0A, CHR ''c'', CHR 0x0A]
   \<and> dedup [] = ''''"
proof -
  have "dedup [''a'', ''b'', ''a'', ''c'', ''b''] = [CHR ''a'', CHR 0x0A, CHR ''b'', CHR 0x0A, CHR ''c'', CHR 0x0A]"
    by (simp add: dedup_first_seen newline_def)
  moreover have "dedup [] = ''''"
    by (simp add: dedup_def)
  ultimately show ?thesis
    by (intro conjI dedup_first_seen set_first_seen distinct_first_seen first_seen_in_order)
qed

theorem dedup_spec_witness:
  "dedup [''x'', ''y'', ''x''] = ''x'' @ [newline] @ ''y'' @ [newline]
   \<and> first_seen [''x'', ''y'', ''x''] = [''x'', ''y'']"
  using dedup_spec [of "[''x'', ''y'', ''x'']"] by simp

section \<open>Properties of the attempt context\<close>

text \<open>
  C7: \<open>Error\<close> appends exactly one decorated message to the log, sets the fail flag
  and returns, so that the rest of the attempt runs, on the context so changed.
\<close>

theorem R_Error_spec:
  "R_Error site msg r = (Returns (), r\<lparr>output := output r @ [decorate site msg], fail := True\<rparr>)
   \<and> exec (CallError site msg # rest) r w
       = exec rest (r\<lparr>output := output r @ [decorate site msg], fail := True\<rparr>) w"
  by (simp add: R_Error_def R_log_def)

text \<open>
  C8: \<open>Check\<close> with an error appends the decorated message of the error and ends
  the attempt as \<open>Fatal\<close> with that message does, so that nothing after it runs;
  with \<open>nil\<close> it changes neither the log nor the fail flag and returns.
\<close>

theorem R_Check_spec:
  "R_Check site (Some m) r = R_Fatal site m r
   \<and> R_Check site (Some m) r = R_FailNow (R_log site m r)
   \<and> R_Check site (Some m) r = (Goexit, r\<lparr>output := output r @ [decorate site m], fail := True\<rparr>)
   \<and> exec (CallCheck site (Some m) # rest) r w
       = (Goexit, r\<lparr>output := output r @ [decorate site m], fail := True\<rparr>, w)
   \<and> R_Check site None r = (Returns (), r)
   \<and> exec (CallCheck site None # rest) r w = exec rest r w"
  by (simp add: R_Check_def R_Fatal_def R_FailNow_def R_log_def)

section \<open>Properties of one attempt\<close>

lemma perform_reporter: "reporter (snd (snd (perform a r w))) = reporter w"
  by (cases a) (simp_all add: R_FailNow_def R_Fatal_def R_Fatalf_def R_Error_def R_Check_def
      split: option.splits)

lemma perform_abrupt:
  "abrupt a \<Longrightarrow> fst (perform a r w) = Goexit \<and> fail (fst (snd (perform a r w)))
     \<and> snd (snd (perform a r w)) = w"
  by (cases a rule: abrupt.cases) (simp_all add: R_FailNow_def R_Fatal_def R_Fatalf_def R_Check_def)

lemma perform_not_abrupt:
  "\<not> abrupt a \<Longrightarrow> fst (perform a r w) = Returns ()
     \<and> clock (snd (snd (perform a r w))) = clock w + int (case a of Elapse n \<Rightarrow> n | _ \<Rightarrow> 0)
     \<and> (fail r \<longrightarrow> fail (fst (snd (perform a r w))))"
  by (cases a rule: abrupt.cases) (simp_all add: R_Error_def R_Check_def)

lemma perform_not_failing:
  "\<not> failing a \<Longrightarrow> perform a r w
      = (Returns (), r, w\<lparr>clock := clock w + int (case a of Elapse n \<Rightarrow> n | _ \<Rightarrow> 0)\<rparr>)"
  by (cases a rule: abrupt.cases) (simp_all add: R_Check_def)

lemma perform_output: "prefix (output r) (output (fst (snd (perform a r w))))"
  by (cases a) (simp_all add: R_FailNow_def R_Fatal_def R_Fatalf_def R_Error_def R_Check_def
      R_log_def split: option.splits)

lemma exec_Cons_abrupt:
  "abrupt a \<Longrightarrow> exec (a # rest) r w = (Goexit, fst (snd (perform a r w)), w)"
  using perform_abrupt [of a r w] by (cases "perform a r w") auto

lemma exec_Cons_not_abrupt:
  "\<not> abrupt a \<Longrightarrow> exec (a # rest) r w
      = exec rest (fst (snd (perform a r w))) (snd (snd (perform a r w)))"
  using perform_not_abrupt [of a r w] by (cases "perform a r w") auto

lemma exec_cut: "abrupt a \<Longrightarrow> exec (pre @ a # rest) r w = exec (pre @ [a]) r w"
proof (induction pre arbitrary: r w)
  case Nil
  then show ?case by (simp del: exec.simps(2) add: exec_Cons_abrupt)
next
  case (Cons b pre)
  show ?case
  proof (cases "abrupt b")
    case True
    then show ?thesis by (simp del: exec.simps(2) add: exec_Cons_abrupt)
  next
    case False
    then show ?thesis
      using Cons.IH [OF Cons.prems] by (simp del: exec.simps(2) add: exec_Cons_not_abrupt)
  qed
qed

lemma exec_fail_kept: "fail r \<Longrightarrow> fail (fst (snd (exec s r w)))"
proof (induction s arbitrary: r w)
  case Nil
  then show ?case by simp
next
  case (Cons a s)
  show ?case
  proof (cases "abrupt a")
    case True
    then show ?thesis using perform_abrupt [of a r w] by (simp del: exec.simps(2) add: exec_Cons_abrupt)
  next
    case False
    then show ?thesis
      using perform_not_abrupt [of a r w] Cons.prems Cons.IH by (simp del: exec.simps(2) add: exec_Cons_not_abrupt)
  qed
qed

lemma exec_abrupt:
  "\<exists>a \<in> set s. abrupt a \<Longrightarrow> fst (exec s r w) = Goexit \<and> fail (fst (snd (exec s r w)))"
proof (induction s arbitrary: r w)
  case Nil
  then show ?case by simp
next
  case (Cons a s)
  show ?case
  proof (cases "abrupt a")
    case True
    then show ?thesis using perform_abrupt [of a r w] by (simp del: exec.simps(2) add: exec_Cons_abrupt)
  next
    case False
    with Cons.prems have "\<exists>a \<in> set s. abrupt a" by auto
    then show ?thesis
      using False Cons.IH by (simp del: exec.simps(2) add: exec_Cons_not_abrupt)
  qed
qed

lemma exec_clock: "clock (snd (snd (exec s r w))) = clock w + int (spent s)"
proof (induction s arbitrary: r w)
  case Nil
  then show ?case by simp
next
  case (Cons a s)
  show ?case
  proof (cases "abrupt a")
    case True
    then show ?thesis by (simp del: exec.simps(2) add: exec_Cons_abrupt)
  next
    case False
    then show ?thesis
      using perform_not_abrupt [of a r w] Cons.IH by (simp del: exec.simps(2) add: exec_Cons_not_abrupt)
  qed
qed

lemma exec_reporter: "reporter (snd (snd (exec s r w))) = reporter w"
proof (induction s arbitrary: r w)
  case Nil
  then show ?case by simp
next
  case (Cons a s)
  show ?case
    using perform_reporter [of a r w] Cons.IH
    by (cases "abrupt a") (simp_all del: exec.simps(2) add: exec_Cons_abrupt exec_Cons_not_abrupt)
qed

lemma exec_output: "prefix (output r) (output (fst (snd (exec s r w))))"
proof (induction s arbitrary: r w)
  case Nil
  then show ?case by simp
next
  case (Cons a s)
  show ?case
  proof (cases "abrupt a")
    case True
    then show ?thesis using perform_output [of r a w] by (simp del: exec.simps(2) add: exec_Cons_abrupt)
  next
    case False
    have "prefix (output (fst (snd (perform a r w))))
            (output (fst (snd (exec s (fst (snd (perform a r w))) (snd (snd (perform a r w)))))))"
      by (rule Cons.IH)
    with perform_output [of r a w] show ?thesis
      using False by (simp del: exec.simps(2) add: exec_Cons_not_abrupt)
  qed
qed

lemma spent_le_cost: "spent s \<le> cost s"
  by (induction s rule: cost.induct) auto

lemma exec_not_failing:
  "\<forall>a \<in> set s. \<not> failing a \<Longrightarrow> exec s r w = (Returns (), r, w\<lparr>clock := clock w + int (cost s)\<rparr>)"
proof (induction s arbitrary: w)
  case Nil
  then show ?case by simp
next
  case (Cons a s)
  then have a: "\<not> failing a" and s: "\<forall>a \<in> set s. \<not> failing a" by auto
  have "cost (a # s) = (case a of Elapse n \<Rightarrow> n | _ \<Rightarrow> 0) + cost s"
    by (cases a) simp_all
  then show ?case
    using perform_not_failing [OF a, of r w] Cons.IH [OF s] by (simp add: add.assoc)
qed

section \<open>Properties of the timer\<close>



section \<open>Properties of the loop\<close>

lemmas run_eval =
  run_def Timer_Next_def Time_IsZero_def Time_Add_def Time_After_def time_Now_def time_Sleep_def
  run_fail_def go_wait_def R_FailNow_def R_log_def R_Fatal_def R_Fatalf_def R_Error_def
  R_Check_def decorate_def LastIndex_def format_d_def decimal.simps dedup_def dedup_count_def
  dedup_write_def newline_def tracer_def fakeT_def exitingT_def failing_check_def
  passing_check_def aborting_check_def

lemma linked_snoc:
  "linked (tr @ [x]) =
     (linked tr \<and> (tr \<noteq> [] \<longrightarrow> fail (snd (last tr)) \<and> fst x = (snd (last tr))\<lparr>fail := False\<rparr>))"
  by (induction tr rule: linked.induct) auto

lemma run_fail_returning:
  assumes "returning t"
  shows "run_fail t rr w =
           (Returns (), w\<lparr>reporter := snd (T_FailNow t
              (if dedup (output rr) \<noteq> [] then snd (T_Log t (dedup (output rr)) (reporter w))
               else reporter w))\<rparr>)"
proof -
  have l: "\<And>args s. fst (T_Log t args s) = Returns ()"
    and f: "\<And>s. fst (T_FailNow t s) = Returns ()"
    using assms by (simp_all add: returning_def)
  show ?thesis
    by (simp add: run_fail_def Let_def case_prod_beta l f)
qed

lemma run_loop_Suc_continue:
  assumes "pol p (run_fail t rr) w = (Returns True, p', w')"
    and "fail (fst (go_wait (exec (f (length tr)) rr w')))"
  shows "run_loop (Suc n) t pol f p rr w tr =
           run_loop n t pol f p' ((fst (go_wait (exec (f (length tr)) rr w')))\<lparr>fail := False\<rparr>)
             (snd (go_wait (exec (f (length tr)) rr w')))
             (tr @ [(rr, fst (go_wait (exec (f (length tr)) rr w')))])"
  using assms by (simp add: case_prod_beta)

lemma run_loop_Suc_succeed:
  assumes "pol p (run_fail t rr) w = (Returns True, p', w')"
    and "\<not> fail (fst (go_wait (exec (f (length tr)) rr w')))"
  shows "run_loop (Suc n) t pol f p rr w tr =
           Some \<lparr>how = Succeeded, policy = p', ctx = fst (go_wait (exec (f (length tr)) rr w')),
                 final = snd (go_wait (exec (f (length tr)) rr w')),
                 attempts = tr @ [(rr, fst (go_wait (exec (f (length tr)) rr w')))]\<rparr>"
  using assms by (simp add: case_prod_beta)

lemma run_loop_Suc_give_up:
  assumes "pol p (run_fail t rr) w = (Returns False, p', w')"
  shows "run_loop (Suc n) t pol f p rr w tr =
           Some \<lparr>how = GaveUp, policy = p', ctx = rr, final = w', attempts = tr\<rparr>"
  using assms by simp

lemma run_loop_Suc_unwound:
  assumes "pol p (run_fail t rr) w = (Goexit, p', w')"
  shows "run_loop (Suc n) t pol f p rr w tr =
           Some \<lparr>how = Unwound, policy = p', ctx = rr, final = w', attempts = tr\<rparr>"
  using assms by simp

lemma Timer_Next_fresh:
  "Time_IsZero (stop p) \<Longrightarrow>
     Timer_Next p cb w = (Returns True, p\<lparr>stop := clock w + Timeout p\<rparr>, w)"
  by (simp add: Timer_Next_def Time_Add_def time_Now_def)

lemma Timer_Next_wait:
  "\<not> Time_IsZero (stop p) \<Longrightarrow> \<not> Time_After (time_Now w) (stop p) \<Longrightarrow>
     Timer_Next p cb w = (Returns True, p, time_Sleep (Wait p) w)"
  by (simp add: Timer_Next_def)

lemma Timer_Next_expired:
  "\<not> Time_IsZero (stop p) \<Longrightarrow> Time_After (time_Now w) (stop p) \<Longrightarrow>
     Timer_Next p cb w =
       (case cb w of (Goexit, w') \<Rightarrow> (Goexit, p, w') | (Returns u, w') \<Rightarrow> (Returns False, p, w'))"
  by (simp add: Timer_Next_def)

text \<open>How \<open>Next\<close> of the timer treats the reporter: untouched when it answers true.\<close>

lemma Timer_Next_true:
  assumes "Timer_Next p cb w = (Returns True, p', w')"
  shows "reporter w' = reporter w \<and> clock w \<le> clock w' \<and> Timeout p' = Timeout p \<and> Wait p' = Wait p"
  using assms
  by (auto simp: Timer_Next_def time_Sleep_def split: if_splits prod.splits ctl.splits)

text \<open>
  C3: when the script of an invocation reaches an abrupt call (\<open>FailNow\<close>,
  \<open>Fatal\<close>, \<open>Fatalf\<close>, or \<open>Check\<close> with an error), nothing after the call
  runs: the attempt is the attempt of the script cut after the call. The goroutine of the
  attempt unwinds with the fail flag set, and the controller, which neither ends nor
  unwinds, goes to the next iteration of the loop with the flag cleared and the attempt
  noted: the policy is asked again, with the context so cleared. When it then says to
  stop, the run returns, having given up, with that one attempt more; when it says to go
  on and the next invocation records no failure, the run returns with a success and two
  attempts more, the second of which started from the cleared context.
\<close>

theorem abrupt_failure_contained:
  assumes "abrupt a" and "f (length tr) = pre @ a # rest"
    and "pol p (run_fail t rr) w = (Returns True, p', w')"
  shows "exec (f (length tr)) rr w' = exec (pre @ [a]) rr w'
       \<and> fst (exec (f (length tr)) rr w') = Goexit
       \<and> fail (fst (go_wait (exec (f (length tr)) rr w')))
       \<and> run_loop (Suc n) t pol f p rr w tr =
           run_loop n t pol f p' ((fst (go_wait (exec (pre @ [a]) rr w')))\<lparr>fail := False\<rparr>)
             (snd (go_wait (exec (pre @ [a]) rr w')))
             (tr @ [(rr, fst (go_wait (exec (pre @ [a]) rr w')))])
       \<and> (pol p' (run_fail t ((fst (go_wait (exec (pre @ [a]) rr w')))\<lparr>fail := False\<rparr>))
               (snd (go_wait (exec (pre @ [a]) rr w'))) = (Returns False, pn, wn)
          \<longrightarrow> run_loop (Suc (Suc n)) t pol f p rr w tr =
                Some \<lparr>how = GaveUp, policy = pn,
                      ctx = (fst (go_wait (exec (pre @ [a]) rr w')))\<lparr>fail := False\<rparr>,
                      final = wn,
                      attempts = tr @ [(rr, fst (go_wait (exec (pre @ [a]) rr w')))]\<rparr>)
       \<and> (pol p' (run_fail t ((fst (go_wait (exec (pre @ [a]) rr w')))\<lparr>fail := False\<rparr>))
               (snd (go_wait (exec (pre @ [a]) rr w'))) = (Returns True, pn, wn)
            \<and> (\<forall>b \<in> set (f (Suc (length tr))). \<not> failing b)
          \<longrightarrow> run_loop (Suc (Suc n)) t pol f p rr w tr =
                Some \<lparr>how = Succeeded, policy = pn,
                      ctx = (fst (go_wait (exec (pre @ [a]) rr w')))\<lparr>fail := False\<rparr>,
                      final = wn\<lparr>clock := clock wn + int (cost (f (Suc (length tr))))\<rparr>,
                      attempts = tr @ [(rr, fst (go_wait (exec (pre @ [a]) rr w'))),
                        ((fst (go_wait (exec (pre @ [a]) rr w')))\<lparr>fail := False\<rparr>,
                         (fst (go_wait (exec (pre @ [a]) rr w')))\<lparr>fail := False\<rparr>)]\<rparr>)"
proof -
  let ?s = "f (length tr)"
  let ?rr' = "fst (go_wait (exec (pre @ [a]) rr w'))"
  let ?rr'' = "?rr'\<lparr>fail := False\<rparr>"
  let ?w'' = "snd (go_wait (exec (pre @ [a]) rr w'))"
  let ?tr' = "tr @ [(rr, ?rr')]"
  have cut: "exec ?s rr w' = exec (pre @ [a]) rr w'"
    unfolding assms(2) using assms(1) by (rule exec_cut)
  have "\<exists>b \<in> set ?s. abrupt b"
    unfolding assms(2) using assms(1) by simp
  then have both: "fst (exec ?s rr w') = Goexit \<and> fail (fst (snd (exec ?s rr w')))"
    by (rule exec_abrupt)
  then have fl: "fail (fst (go_wait (exec ?s rr w')))"
    by (simp add: go_wait_def)
  have "\<And>m. run_loop (Suc m) t pol f p rr w tr =
           run_loop m t pol f p' ((fst (go_wait (exec ?s rr w')))\<lparr>fail := False\<rparr>)
             (snd (go_wait (exec ?s rr w')))
             (tr @ [(rr, fst (go_wait (exec ?s rr w')))])"
    using assms(3) fl by (rule run_loop_Suc_continue)
  then have loop: "\<And>m. run_loop (Suc m) t pol f p rr w tr = run_loop m t pol f p' ?rr'' ?w'' ?tr'"
    by (simp only: cut)
  have stop: "run_loop (Suc (Suc n)) t pol f p rr w tr =
                Some \<lparr>how = GaveUp, policy = pn, ctx = ?rr'', final = wn, attempts = ?tr'\<rparr>"
    if "pol p' (run_fail t ?rr'') ?w'' = (Returns False, pn, wn)"
    unfolding loop using that by (rule run_loop_Suc_give_up)
  have pass: "run_loop (Suc (Suc n)) t pol f p rr w tr =
                Some \<lparr>how = Succeeded, policy = pn, ctx = ?rr'',
                      final = wn\<lparr>clock := clock wn + int (cost (f (Suc (length tr))))\<rparr>,
                      attempts = tr @ [(rr, ?rr'), (?rr'', ?rr'')]\<rparr>"
    if nx: "pol p' (run_fail t ?rr'') ?w'' = (Returns True, pn, wn)"
      and ok: "\<forall>b \<in> set (f (Suc (length tr))). \<not> failing b"
  proof -
    have ex: "exec (f (length ?tr')) ?rr'' wn
        = (Returns (), ?rr'', wn\<lparr>clock := clock wn + int (cost (f (Suc (length tr))))\<rparr>)"
      using exec_not_failing [OF ok, of ?rr'' wn] by simp
    then have nf: "\<not> fail (fst (go_wait (exec (f (length ?tr')) ?rr'' wn)))"
      by (simp add: go_wait_def)
    show ?thesis
      unfolding loop
      using run_loop_Suc_succeed [where pol = pol and f = f and tr = ?tr' and n = n, OF nx nf] ex
      by (simp add: go_wait_def)
  qed
  from cut both fl loop [of n] stop pass show ?thesis by blast
qed


theorem abrupt_failure_contained_witness:
  "abrupt (CallFatal (Some (''/go/src/app/app_test.go'', 12)) ''not ready'')
   \<and> exec (recovering_check 0) \<lparr>fail = False, output = []\<rparr> \<lparr>clock = 7, reporter = []\<rparr>
       = (Goexit, \<lparr>fail = True, output = [''app_test.go:12: not ready'']\<rparr>, \<lparr>clock = 7, reporter = []\<rparr>)
   \<and> run_loop (Suc (Suc 0)) tracer Timer_Next recovering_check
         \<lparr>Timeout = 1000, Wait = 300, stop = 0\<rparr> \<lparr>fail = False, output = []\<rparr>
         \<lparr>clock = 7, reporter = []\<rparr> []
       = Some \<lparr>how = Succeeded, policy = \<lparr>Timeout = 1000, Wait = 300, stop = 1007\<rparr>,
               ctx = \<lparr>fail = False, output = [''app_test.go:12: not ready'']\<rparr>,
               final = \<lparr>clock = 312, reporter = []\<rparr>,
               attempts =
                 [(\<lparr>fail = False, output = []\<rparr>, \<lparr>fail = True, output = [''app_test.go:12: not ready'']\<rparr>),
                  (\<lparr>fail = False, output = [''app_test.go:12: not ready'']\<rparr>,
                   \<lparr>fail = False, output = [''app_test.go:12: not ready'']\<rparr>)]\<rparr>
   \<and> run_loop (Suc (Suc 0)) tracer Timer_Next aborting_check
         \<lparr>Timeout = - 1, Wait = 300, stop = 0\<rparr> \<lparr>fail = False, output = []\<rparr>
         \<lparr>clock = 7, reporter = []\<rparr> []
       = Some \<lparr>how = GaveUp, policy = \<lparr>Timeout = - 1, Wait = 300, stop = 6\<rparr>,
               ctx = \<lparr>fail = False, output = [''app_test.go:12: not ready'']\<rparr>,
               final = \<lparr>clock = 7,
                 reporter = [LogCall (''app_test.go:12: not ready'' @ [newline]), FailNowCall]\<rparr>,
               attempts =
                 [(\<lparr>fail = False, output = []\<rparr>, \<lparr>fail = True, output = [''app_test.go:12: not ready'']\<rparr>)]\<rparr>"
  using abrupt_failure_contained [where a = "CallFatal (Some (''/go/src/app/app_test.go'', 12)) ''not ready''"
      and f = recovering_check and tr = "[]" and pre = "[]"
      and rest = "[CallError (Some (''/go/src/app/app_test.go'', 13)) ''unreachable'']"
      and pol = Timer_Next and p = "\<lparr>Timeout = 1000, Wait = 300, stop = 0\<rparr>"
      and t = tracer and rr = "\<lparr>fail = False, output = []\<rparr>"
      and w = "\<lparr>clock = 7, reporter = []\<rparr>"
      and p' = "\<lparr>Timeout = 1000, Wait = 300, stop = 1007\<rparr>"
      and w' = "\<lparr>clock = 7, reporter = []\<rparr>" and n = 0
      and pn = "\<lparr>Timeout = 1000, Wait = 300, stop = 1007\<rparr>"
      and wn = "\<lparr>clock = 307, reporter = []\<rparr>"]
    abrupt_failure_contained [where a = "CallFatal (Some (''/go/src/app/app_test.go'', 12)) ''not ready''"
      and f = aborting_check and tr = "[]" and pre = "[]"
      and rest = "[CallError (Some (''/go/src/app/app_test.go'', 13)) ''unreachable'']"
      and pol = Timer_Next and p = "\<lparr>Timeout = - 1, Wait = 300, stop = 0\<rparr>"
      and t = tracer and rr = "\<lparr>fail = False, output = []\<rparr>"
      and w = "\<lparr>clock = 7, reporter = []\<rparr>"
      and p' = "\<lparr>Timeout = - 1, Wait = 300, stop = 6\<rparr>"
      and w' = "\<lparr>clock = 7, reporter = []\<rparr>" and n = 0
      and pn = "\<lparr>Timeout = - 1, Wait = 300, stop = 6\<rparr>"
      and wn = "\<lparr>clock = 7,
                 reporter = [LogCall (''app_test.go:12: not ready'' @ [newline]), FailNowCall]\<rparr>"]
  by (simp add: run_eval recovering_check_def)

text \<open>
  C6, as the code has it: when the first invocation of the check function calls no
  operation that records a failure, and the timer is fresh or its deadline has not passed,
  the loop asks the policy once, invokes the check function exactly once and ends by
  \<open>break\<close>: the policy has set its deadline or slept, the time of the invocation has
  passed, and the state of the reporter is the one before the run, so neither
  \<open>FailNow\<close> nor \<open>Log\<close> was called. A timer that is used again after its deadline
  gives up at once: the check function is not invoked and \<open>FailNow\<close> is called.
\<close>

theorem passing_check_runs_once:
  assumes "\<forall>a \<in> set (f 0). \<not> failing a"
    and "Time_IsZero (stop p) \<or> \<not> Time_After (time_Now w) (stop p)"
  shows "\<exists>res. run (Suc n) t Timer_Next f p w = Some res
           \<and> how res = Succeeded
           \<and> length (attempts res) = 1
           \<and> ctx res = \<lparr>fail = False, output = []\<rparr>
           \<and> reporter (final res) = reporter w
           \<and> attempts res = [(\<lparr>fail = False, output = []\<rparr>, \<lparr>fail = False, output = []\<rparr>)]
           \<and> policy res = (if Time_IsZero (stop p) then p\<lparr>stop := clock w + Timeout p\<rparr> else p)
           \<and> clock (final res) =
                clock w + (if Time_IsZero (stop p) then 0 else max 0 (Wait p)) + int (cost (f 0))"
proof -
  let ?rr = "\<lparr>fail = False, output = []\<rparr>"
  let ?p' = "if Time_IsZero (stop p) then p\<lparr>stop := clock w + Timeout p\<rparr> else p"
  let ?w' = "if Time_IsZero (stop p) then w else time_Sleep (Wait p) w"
  have nx: "Timer_Next p (run_fail t ?rr) w = (Returns True, ?p', ?w')"
  proof (cases "Time_IsZero (stop p)")
    case True
    then show ?thesis by (simp add: Timer_Next_fresh)
  next
    case False
    with assms(2) show ?thesis by (simp add: Timer_Next_wait)
  qed
  have rep: "reporter ?w' = reporter w"
    and ck: "clock ?w' = clock w + (if Time_IsZero (stop p) then 0 else max 0 (Wait p))"
    by (simp_all add: time_Sleep_def)
  have ex: "exec (f (length ([] :: (R \<times> R) list))) ?rr ?w'
              = (Returns (), ?rr, ?w'\<lparr>clock := clock ?w' + int (cost (f 0))\<rparr>)"
    using exec_not_failing [OF assms(1), of ?rr ?w'] by (simp del: split_paired_All)
  then have "\<not> fail (fst (go_wait (exec (f (length ([] :: (R \<times> R) list))) ?rr ?w')))"
    by (simp add: go_wait_def)
  from run_loop_Suc_succeed [where pol = Timer_Next and f = f and tr = "[]" and n = n, OF nx this]
  have "run (Suc n) t Timer_Next f p w =
      Some \<lparr>how = Succeeded, policy = ?p', ctx = ?rr,
            final = ?w'\<lparr>clock := clock ?w' + int (cost (f 0))\<rparr>, attempts = [(?rr, ?rr)]\<rparr>"
    unfolding ex by (simp add: run_def go_wait_def)
  then show ?thesis
    using rep ck by simp
qed

theorem passing_check_runs_once_witness:
  "passing_check 3 0 = [Elapse 3] \<and> \<not> failing (Elapse 3)
   \<and> Time_IsZero (stop \<lparr>Timeout = 1000000000, Wait = 100000000, stop = 0\<rparr>)
   \<and> (\<exists>res. run (Suc 0) tracer Timer_Next (passing_check 3)
           \<lparr>Timeout = 1000000000, Wait = 100000000, stop = 0\<rparr> \<lparr>clock = 7, reporter = []\<rparr> = Some res
         \<and> how res = Succeeded \<and> length (attempts res) = 1
         \<and> ctx res = \<lparr>fail = False, output = []\<rparr>
         \<and> reporter (final res) = []
         \<and> policy res = \<lparr>Timeout = 1000000000, Wait = 100000000, stop = 1000000007\<rparr>
         \<and> clock (final res) = 10)
   \<and> (\<exists>res. run (Suc 0) tracer Timer_Next (passing_check 3)
           \<lparr>Timeout = 1000000000, Wait = 100000000, stop = 1000000007\<rparr>
           \<lparr>clock = 900000000, reporter = []\<rparr> = Some res
         \<and> how res = Succeeded \<and> length (attempts res) = 1
         \<and> reporter (final res) = []
         \<and> clock (final res) = 1000000003)"
  using passing_check_runs_once [where f = "passing_check 3"
      and p = "\<lparr>Timeout = 1000000000, Wait = 100000000, stop = 0\<rparr>"
      and w = "\<lparr>clock = 7, reporter = []\<rparr>" and n = 0 and t = tracer]
    passing_check_runs_once [where f = "passing_check 3"
      and p = "\<lparr>Timeout = 1000000000, Wait = 100000000, stop = 1000000007\<rparr>"
      and w = "\<lparr>clock = 900000000, reporter = []\<rparr>" and n = 0 and t = tracer]
  by (simp add: passing_check_def Time_IsZero_def Time_After_def time_Now_def) blast

theorem passing_check_runs_once_counterexample:
  "map_option calls (run (Suc 0) tracer Timer_Next (passing_check 3)
      \<lparr>Timeout = 1000000000, Wait = 100000000, stop = 63897000001000000000\<rparr>
      \<lparr>clock = 63897000002000000000, reporter = []\<rparr>) = Some 0
   \<and> map_option how (run (Suc 0) tracer Timer_Next (passing_check 3)
      \<lparr>Timeout = 1000000000, Wait = 100000000, stop = 63897000001000000000\<rparr>
      \<lparr>clock = 63897000002000000000, reporter = []\<rparr>) = Some GaveUp
   \<and> map_option reported (run (Suc 0) tracer Timer_Next (passing_check 3)
      \<lparr>Timeout = 1000000000, Wait = 100000000, stop = 63897000001000000000\<rparr>
      \<lparr>clock = 63897000002000000000, reporter = []\<rparr>) = Some [FailNowCall]"
  by (simp add: run_eval calls_def reported_def)

lemma run_loop_linked:
  assumes "run_loop n t pol f p rr w tr = Some res"
    and "\<not> fail rr"
    and "\<forall>(s, e) \<in> set tr. \<not> fail s \<and> prefix (output s) (output e) \<and> prefix (output e) (output rr)"
    and "linked tr"
    and "tr \<noteq> [] \<longrightarrow> fail (snd (last tr)) \<and> rr = (snd (last tr))\<lparr>fail := False\<rparr>"
  shows "(\<forall>(s, e) \<in> set (attempts res).
            \<not> fail s \<and> prefix (output s) (output e) \<and> prefix (output e) (output (ctx res)))
       \<and> linked (attempts res)
       \<and> \<not> fail (ctx res)
       \<and> (\<exists>more. attempts res = tr @ more)
       \<and> (attempts res \<noteq> [] \<longrightarrow> output (ctx res) = output (snd (last (attempts res))))"
  using assms
proof (induction n arbitrary: p rr w tr)
  case 0
  then show ?case by simp
next
  case (Suc n)
  obtain c p' w' where nx: "pol p (run_fail t rr) w = (c, p', w')"
    by (metis prod_cases3)
  show ?case
  proof (cases c)
    case Goexit
    with nx Suc.prems(1) have "res = \<lparr>how = Unwound, policy = p', ctx = rr, final = w', attempts = tr\<rparr>"
      by simp
    then show ?thesis using Suc.prems(2-5) by auto
  next
    case (Returns again)
    show ?thesis
    proof (cases again)
      case False
      with nx Returns Suc.prems(1)
      have "res = \<lparr>how = GaveUp, policy = p', ctx = rr, final = w', attempts = tr\<rparr>"
        by simp
      then show ?thesis using Suc.prems(2-5) by auto
    next
      case True
      let ?rr' = "fst (go_wait (exec (f (length tr)) rr w'))"
      let ?w'' = "snd (go_wait (exec (f (length tr)) rr w'))"
      let ?tr' = "tr @ [(rr, ?rr')]"
      have nx': "pol p (run_fail t rr) w = (Returns True, p', w')"
        using nx Returns True by simp
      have grow: "prefix (output rr) (output ?rr')"
        using exec_output [of rr "f (length tr)" w'] by (simp add: go_wait_def)
      have pairs: "\<forall>(s, e) \<in> set ?tr'.
          \<not> fail s \<and> prefix (output s) (output e) \<and> prefix (output e) (output ?rr')"
        using Suc.prems(2,3) grow by (auto intro: prefix_order.trans)
      have lk: "linked ?tr'"
        using Suc.prems(4,5) by (simp add: linked_snoc)
      show ?thesis
      proof (cases "fail ?rr'")
        case False
        then have "res = \<lparr>how = Succeeded, policy = p', ctx = ?rr', final = ?w'', attempts = ?tr'\<rparr>"
          using run_loop_Suc_succeed [where pol = pol and f = f and tr = tr and n = n, OF nx' False] Suc.prems(1) by simp
        then show ?thesis using pairs lk False by simp
      next
        case fl: True
        have step: "run_loop n t pol f p' (?rr'\<lparr>fail := False\<rparr>) ?w'' ?tr' = Some res"
          using run_loop_Suc_continue [where pol = pol and f = f and tr = tr and n = n, OF nx' fl] Suc.prems(1) by simp
        have "(\<forall>(s, e) \<in> set (attempts res).
                  \<not> fail s \<and> prefix (output s) (output e) \<and> prefix (output e) (output (ctx res)))
             \<and> linked (attempts res)
             \<and> \<not> fail (ctx res)
             \<and> (\<exists>more. attempts res = ?tr' @ more)
             \<and> (attempts res \<noteq> [] \<longrightarrow> output (ctx res) = output (snd (last (attempts res))))"
        proof (rule Suc.IH [OF step])
          show "\<not> fail (?rr'\<lparr>fail := False\<rparr>)" by simp
          show "\<forall>(s, e) \<in> set ?tr'. \<not> fail s \<and> prefix (output s) (output e)
                  \<and> prefix (output e) (output (?rr'\<lparr>fail := False\<rparr>))"
            using pairs by simp
          show "linked ?tr'" by (rule lk)
          show "?tr' \<noteq> [] \<longrightarrow> fail (snd (last ?tr'))
                  \<and> ?rr'\<lparr>fail := False\<rparr> = (snd (last ?tr'))\<lparr>fail := False\<rparr>"
            using fl by simp
        qed
        then show ?thesis by auto
      qed
    qed
  qed
qed

text \<open>
  C9: in every run that ends, whatever the policy and the reporter, every attempt starts
  with the fail flag false and with the log the attempt before it left; an attempt only
  extends the log, and the log at the end of every attempt is a prefix of the log of the
  context at the end of the run, which is the one the callback reads. Every attempt but
  the last ended with the flag set, and the loop cleared it, and nothing else, before the
  next call of the policy.
\<close>

theorem log_kept_flag_cleared:
  assumes "run n t pol f p w = Some res"
  shows "(\<forall>(s, e) \<in> set (attempts res).
            \<not> fail s \<and> prefix (output s) (output e) \<and> prefix (output e) (output (ctx res)))
       \<and> linked (attempts res)
       \<and> \<not> fail (ctx res)
       \<and> (attempts res \<noteq> [] \<longrightarrow>
            fst (hd (attempts res)) = \<lparr>fail = False, output = []\<rparr>
            \<and> output (ctx res) = output (snd (last (attempts res))))"
proof -
  let ?rr = "\<lparr>fail = False, output = []\<rparr>"
  have loop: "run_loop n t pol f p ?rr w [] = Some res"
    using assms by (simp add: run_def)
  have inv: "(\<forall>(s, e) \<in> set (attempts res).
            \<not> fail s \<and> prefix (output s) (output e) \<and> prefix (output e) (output (ctx res)))
       \<and> linked (attempts res)
       \<and> \<not> fail (ctx res)
       \<and> (\<exists>more. attempts res = [] @ more)
       \<and> (attempts res \<noteq> [] \<longrightarrow> output (ctx res) = output (snd (last (attempts res))))"
    by (rule run_loop_linked [OF loop]) simp_all
  have first: "attempts res \<noteq> [] \<longrightarrow> fst (hd (attempts res)) = ?rr"
  proof (cases n)
    case 0
    then show ?thesis using loop by simp
  next
    case (Suc m)
    obtain c p' w' where nx: "pol p (run_fail t ?rr) w = (c, p', w')"
      by (metis prod_cases3)
    show ?thesis
    proof (cases "c = Returns True")
      case False
      then have "attempts res = []"
        using loop nx Suc by (cases c) (auto split: if_splits)
      then show ?thesis by simp
    next
      case True
      let ?rr' = "fst (go_wait (exec (f (length ([] :: (R \<times> R) list))) ?rr w'))"
      let ?w'' = "snd (go_wait (exec (f (length ([] :: (R \<times> R) list))) ?rr w'))"
      have nx': "pol p (run_fail t ?rr) w = (Returns True, p', w')"
        using nx True by simp
      show ?thesis
      proof (cases "fail ?rr'")
        case False
        then show ?thesis
          using run_loop_Suc_succeed [where pol = pol and f = f and tr = "[]" and n = m, OF nx' False] loop Suc by auto
      next
        case fl: True
        have step: "run_loop m t pol f p' (?rr'\<lparr>fail := False\<rparr>) ?w'' ([] @ [(?rr, ?rr')]) = Some res"
          using run_loop_Suc_continue [where pol = pol and f = f and tr = "[]" and n = m, OF nx' fl] loop Suc by simp
        have "\<exists>more. attempts res = ([] @ [(?rr, ?rr')]) @ more"
          using run_loop_linked [OF step] fl by simp
        then show ?thesis by auto
      qed
    qed
  qed
  from inv first show ?thesis by blast
qed

theorem log_kept_flag_cleared_witness:
  "run (Suc (Suc (Suc 0))) tracer Timer_Next (failing_check 400)
      \<lparr>Timeout = 1000, Wait = 300, stop = 0\<rparr> \<lparr>clock = 7, reporter = []\<rparr>
     = Some \<lparr>how = GaveUp, policy = \<lparr>Timeout = 1000, Wait = 300, stop = 1007\<rparr>,
             ctx = \<lparr>fail = False, output = [''retry_test.go:19: fail'', ''retry_test.go:19: fail'']\<rparr>,
             final = \<lparr>clock = 1107, reporter = [LogCall (''retry_test.go:19: fail'' @ [newline]), FailNowCall]\<rparr>,
             attempts =
               [(\<lparr>fail = False, output = []\<rparr>, \<lparr>fail = True, output = [''retry_test.go:19: fail'']\<rparr>),
                (\<lparr>fail = False, output = [''retry_test.go:19: fail'']\<rparr>,
                 \<lparr>fail = True, output = [''retry_test.go:19: fail'', ''retry_test.go:19: fail'']\<rparr>)]\<rparr>
   \<and> linked
        [(\<lparr>fail = False, output = []\<rparr>, \<lparr>fail = True, output = [''retry_test.go:19: fail'']\<rparr>),
         (\<lparr>fail = False, output = [''retry_test.go:19: fail'']\<rparr>,
          \<lparr>fail = True, output = [''retry_test.go:19: fail'', ''retry_test.go:19: fail'']\<rparr>)]"
  using log_kept_flag_cleared [where n = "Suc (Suc (Suc 0))" and t = tracer and pol = Timer_Next
      and f = "failing_check 400" and p = "\<lparr>Timeout = 1000, Wait = 300, stop = 0\<rparr>"
      and w = "\<lparr>clock = 7, reporter = []\<rparr>"]
  by (simp add: run_eval)

lemma run_loop_reports:
  assumes "run_loop n t Timer_Next f p rr w tr = Some res" and "returning t"
  shows "how res \<noteq> Unwound
       \<and> (how res = Succeeded \<longrightarrow> reporter (final res) = reporter w)
       \<and> (how res = GaveUp \<longrightarrow>
            reporter (final res) =
              snd (T_FailNow t
                (if dedup (output (ctx res)) \<noteq> []
                 then snd (T_Log t (dedup (output (ctx res))) (reporter w))
                 else reporter w)))"
  using assms(1)
proof (induction n arbitrary: p rr w tr)
  case 0
  then show ?case by simp
next
  case (Suc n)
  show ?case
  proof (cases "\<not> Time_IsZero (stop p) \<and> Time_After (time_Now w) (stop p)")
    case True
    then have "Timer_Next p (run_fail t rr) w =
        (Returns False, p, w\<lparr>reporter := snd (T_FailNow t
              (if dedup (output rr) \<noteq> [] then snd (T_Log t (dedup (output rr)) (reporter w))
               else reporter w))\<rparr>)"
      by (simp add: Timer_Next_expired run_fail_returning [OF assms(2)])
    from run_loop_Suc_give_up [where pol = Timer_Next, OF this, of n f tr] Suc.prems
    show ?thesis by auto
  next
    case False
    then obtain p' w' where nx: "Timer_Next p (run_fail t rr) w = (Returns True, p', w')"
      using Timer_Next_fresh Timer_Next_wait by (metis (full_types))
    then have rep: "reporter w' = reporter w"
      using Timer_Next_true by blast
    let ?rr' = "fst (go_wait (exec (f (length tr)) rr w'))"
    let ?w'' = "snd (go_wait (exec (f (length tr)) rr w'))"
    have rep': "reporter ?w'' = reporter w"
      using exec_reporter [of "f (length tr)" rr w'] rep by (simp add: go_wait_def)
    show ?thesis
    proof (cases "fail ?rr'")
      case False
      from run_loop_Suc_succeed [where pol = Timer_Next and f = f and tr = tr and n = n, OF nx False]
        Suc.prems rep'
      show ?thesis by auto
    next
      case fl: True
      have "run_loop n t Timer_Next f p' (?rr'\<lparr>fail := False\<rparr>) ?w'' (tr @ [(rr, ?rr')]) = Some res"
        using run_loop_Suc_continue [where pol = Timer_Next and f = f and tr = tr and n = n, OF nx fl]
          Suc.prems by simp
      from Suc.IH [OF this] rep' show ?thesis by simp
    qed
  qed
qed

section \<open>The number of attempts and the time of a run\<close>

lemma run_fail_clock: "clock (snd (run_fail t rr w)) = clock w"
  by (simp add: run_fail_def Let_def case_prod_beta split: ctl.splits)

lemma run_loop_attempts_grow:
  "run_loop n t pol f p rr w tr = Some res \<Longrightarrow> \<exists>more. attempts res = tr @ more"
proof (induction n arbitrary: p rr w tr)
  case 0
  then show ?case by simp
next
  case (Suc n)
  obtain c p' w' where nx: "pol p (run_fail t rr) w = (c, p', w')"
    by (metis prod_cases3)
  show ?case
  proof (cases "c = Returns True")
    case False
    then have "attempts res = tr"
      using Suc.prems nx by (cases c) (auto split: if_splits)
    then show ?thesis by simp
  next
    case True
    let ?rr' = "fst (go_wait (exec (f (length tr)) rr w'))"
    let ?w'' = "snd (go_wait (exec (f (length tr)) rr w'))"
    have nx': "pol p (run_fail t rr) w = (Returns True, p', w')"
      using nx True by simp
    show ?thesis
    proof (cases "fail ?rr'")
      case False
      then show ?thesis
        using run_loop_Suc_succeed [where pol = pol and f = f and tr = tr and n = n, OF nx' False]
          Suc.prems by auto
    next
      case fl: True
      have "run_loop n t pol f p' (?rr'\<lparr>fail := False\<rparr>) ?w'' (tr @ [(rr, ?rr')]) = Some res"
        using run_loop_Suc_continue [where pol = pol and f = f and tr = tr and n = n, OF nx' fl]
          Suc.prems by simp
      from Suc.IH [OF this] show ?thesis by auto
    qed
  qed
qed

text \<open>The attempts still to come, seen from the head of the loop with the deadline set.\<close>

lemma remaining_step:
  fixes x D :: int
  assumes "0 < D"
  shows "(if D > x then 0 else nat ((x - D) div D) + 1) = nat (x div D)"
proof (cases "D > x")
  case True
  then have "x div D \<le> 0"
    using assms by (cases "0 \<le> x") (simp_all add: pos_imp_zdiv_neg_iff order_less_imp_le)
  with True show ?thesis by simp
next
  case False
  have "x div D = (x - D) div D + 1"
    using div_add_self2 [of D "x - D"] assms by simp
  moreover have "0 \<le> (x - D) div D"
    using False assms by (simp add: pos_imp_zdiv_nonneg_iff)
  ultimately show ?thesis using False by simp
qed

lemma run_loop_counts:
  fixes d :: nat
  assumes "\<not> Time_IsZero (stop p)" and "0 \<le> Wait p" and "0 < int d + Wait p"
    and "\<forall>i. (\<exists>a \<in> set (f i). abrupt a) \<and> spent (f i) = d"
    and "(if clock w > stop p then 0 else nat ((stop p - clock w) div (int d + Wait p)) + 1) < n"
  shows "\<exists>res. run_loop n t Timer_Next f p rr w tr = Some res
           \<and> how res \<noteq> Succeeded
           \<and> length (attempts res) = length tr
               + (if clock w > stop p then 0 else nat ((stop p - clock w) div (int d + Wait p)) + 1)"
  using assms(5)
proof (induction n arbitrary: rr w tr)
  case 0
  then show ?case by simp
next
  case (Suc n)
  let ?D = "int d + Wait p"
  show ?case
  proof (cases "clock w > stop p")
    case True
    then have nx: "Timer_Next p (run_fail t rr) w =
        (case run_fail t rr w of (Goexit, w') \<Rightarrow> (Goexit, p, w')
         | (Returns u, w') \<Rightarrow> (Returns False, p, w'))"
      using assms(1) by (simp add: Timer_Next_expired Time_After_def time_Now_def)
    show ?thesis
    proof (cases "fst (run_fail t rr w)")
      case Goexit
      then have "Timer_Next p (run_fail t rr) w = (Goexit, p, snd (run_fail t rr w))"
        using nx by (simp add: case_prod_beta)
      from run_loop_Suc_unwound [where pol = Timer_Next, OF this, of n f tr] True
      show ?thesis by simp
    next
      case (Returns u)
      then have "Timer_Next p (run_fail t rr) w = (Returns False, p, snd (run_fail t rr w))"
        using nx by (simp add: case_prod_beta)
      from run_loop_Suc_give_up [where pol = Timer_Next, OF this, of n f tr] True
      show ?thesis by simp
    qed
  next
    case False
    let ?w' = "time_Sleep (Wait p) w"
    let ?rr' = "fst (go_wait (exec (f (length tr)) rr ?w'))"
    let ?w'' = "snd (go_wait (exec (f (length tr)) rr ?w'))"
    have nx: "Timer_Next p (run_fail t rr) w = (Returns True, p, ?w')"
      using assms(1) False by (simp add: Timer_Next_wait Time_After_def time_Now_def)
    have "\<exists>a \<in> set (f (length tr)). abrupt a"
      using assms(4) by blast
    then have fl: "fail ?rr'"
      using exec_abrupt [of "f (length tr)" rr ?w'] by (simp add: go_wait_def)
    have ck: "clock ?w'' = clock w + ?D"
      using exec_clock [of "f (length tr)" rr ?w'] assms(2,4)
      by (simp add: go_wait_def time_Sleep_def)
    have step: "run_loop (Suc n) t Timer_Next f p rr w tr
        = run_loop n t Timer_Next f p (?rr'\<lparr>fail := False\<rparr>) ?w'' (tr @ [(rr, ?rr')])"
      by (rule run_loop_Suc_continue [where pol = Timer_Next and f = f and tr = tr and n = n, OF nx fl])
    let ?m' = "if clock ?w'' > stop p then 0 else nat ((stop p - clock ?w'') div ?D) + 1"
    have m': "?m' = nat ((stop p - clock w) div ?D)"
    proof -
      have e: "stop p - clock ?w'' = (stop p - clock w) - ?D"
        using ck by simp
      have c: "(stop p < clock ?w'') = (stop p - clock w < ?D)"
        using ck by auto
      from remaining_step [OF assms(3)] show ?thesis
        unfolding e c .
    qed
    then have "?m' < n"
      using Suc.prems False by simp
    from Suc.IH [OF this, of "?rr'\<lparr>fail := False\<rparr>" "tr @ [(rr, ?rr')]"]
    show ?thesis
      unfolding step using m' False by auto
  qed
qed

lemma first_attempt_occurs:
  assumes "Time_IsZero (stop p)" and "run n t Timer_Next f p w = Some res"
  shows "1 \<le> calls res"
proof -
  let ?rr = "\<lparr>fail = False, output = []\<rparr>"
  let ?p' = "p\<lparr>stop := clock w + Timeout p\<rparr>"
  let ?rr' = "fst (go_wait (exec (f (length ([] :: (R \<times> R) list))) ?rr w))"
  let ?w'' = "snd (go_wait (exec (f (length ([] :: (R \<times> R) list))) ?rr w))"
  have nx: "Timer_Next p (run_fail t ?rr) w = (Returns True, ?p', w)"
    using assms(1) by (rule Timer_Next_fresh)
  note ends = assms(2)
  then obtain m where n: "n = Suc m"
      by (cases n) (simp_all add: run_def)
    have "\<exists>more. attempts res = [(?rr, ?rr')] @ more"
    proof (cases "fail ?rr'")
      case False
      then show ?thesis
        using run_loop_Suc_succeed [where pol = Timer_Next and f = f and tr = "[]" and n = m, OF nx False]
          ends unfolding run_def n by auto
    next
      case fl: True
      have "run_loop m t Timer_Next f ?p' (?rr'\<lparr>fail := False\<rparr>) ?w'' ([] @ [(?rr, ?rr')]) = Some res"
        using run_loop_Suc_continue [where pol = Timer_Next and f = f and tr = "[]" and n = m, OF nx fl]
          ends n by (simp add: run_def)
      from run_loop_attempts_grow [OF this] show ?thesis by simp
    qed
    then show ?thesis
      by (auto simp: calls_def)
qed

lemma run_counts:
  fixes d :: nat
  assumes "Time_IsZero (stop p)"
    and "clock w + Timeout p \<noteq> 0" and "0 \<le> Wait p" and "0 < int d + Wait p"
    and "\<forall>i. (\<exists>a \<in> set (f i). abrupt a) \<and> spent (f i) = d"
    and "nat ((Timeout p + Wait p) div (int d + Wait p)) + 1 < n"
  shows "\<exists>r. run n t Timer_Next f p w = Some r \<and> how r \<noteq> Succeeded
           \<and> calls r = nat ((Timeout p + Wait p) div (int d + Wait p)) + 1"
proof -
  let ?rr = "\<lparr>fail = False, output = []\<rparr>"
  let ?p' = "p\<lparr>stop := clock w + Timeout p\<rparr>"
  let ?rr' = "fst (go_wait (exec (f (length ([] :: (R \<times> R) list))) ?rr w))"
  let ?w'' = "snd (go_wait (exec (f (length ([] :: (R \<times> R) list))) ?rr w))"
  have nx: "Timer_Next p (run_fail t ?rr) w = (Returns True, ?p', w)"
    using assms(1) by (rule Timer_Next_fresh)
  let ?D = "int d + Wait p"
    let ?N = "nat ((Timeout p + Wait p) div ?D)"
    have h: "clock w + Timeout p \<noteq> 0 \<and> 0 \<le> Wait p \<and> 0 < ?D
            \<and> (\<forall>i. (\<exists>a \<in> set (f i). abrupt a) \<and> spent (f i) = d) \<and> ?N + 1 < n"
      using assms(2-) by simp
    then obtain m where n: "n = Suc m" and m: "?N < m"
      by (cases n) simp_all
    have "\<exists>a \<in> set (f (length ([] :: (R \<times> R) list))). abrupt a"
      using h by blast
    then have fl: "fail ?rr'"
      using exec_abrupt [of "f (length ([] :: (R \<times> R) list))" ?rr w] by (simp add: go_wait_def)
    have ck: "clock ?w'' = clock w + int d"
      using exec_clock [of "f (length ([] :: (R \<times> R) list))" ?rr w] h by (simp add: go_wait_def)
    have step: "run n t Timer_Next f p w
        = run_loop m t Timer_Next f ?p' (?rr'\<lparr>fail := False\<rparr>) ?w'' ([] @ [(?rr, ?rr')])"
      unfolding run_def n
      by (rule run_loop_Suc_continue [where pol = Timer_Next and f = f and tr = "[]" and n = m, OF nx fl])
    let ?m0 = "if clock ?w'' > stop ?p' then 0 else nat ((stop ?p' - clock ?w'') div (int d + Wait ?p')) + 1"
    have m0: "?m0 = ?N"
    proof -
      have a: "stop ?p' = clock w + Timeout p" and b: "Wait ?p' = Wait p"
        by simp_all
      have e: "clock w + Timeout p - (clock w + int d) = (Timeout p + Wait p) - ?D"
        by simp
      have c: "(clock w + Timeout p < clock w + int d) = (Timeout p + Wait p < ?D)"
        by simp
      have "0 < ?D"
        using h by simp
      from remaining_step [OF this] show ?thesis
        unfolding a b ck e c .
    qed
    have "\<exists>r. run_loop m t Timer_Next f ?p' (?rr'\<lparr>fail := False\<rparr>) ?w'' ([] @ [(?rr, ?rr')]) = Some r
           \<and> how r \<noteq> Succeeded
           \<and> length (attempts r) = length ([] @ [(?rr, ?rr')]) + ?m0"
    proof (rule run_loop_counts)
      show "\<not> Time_IsZero (stop ?p')" using h by (simp add: Time_IsZero_def)
      show "0 \<le> Wait ?p'" using h by simp
      show "0 < int d + Wait ?p'" using h by simp
      show "\<forall>i. (\<exists>a \<in> set (f i). abrupt a) \<and> spent (f i) = d" using h by blast
      show "?m0 < m" using m0 m by simp
    qed
    then show ?thesis
      unfolding step m0 by (simp add: calls_def)
qed

text \<open>
  C1, as the code has it: with a fresh timer, a run that ends has invoked the check
  function at least once, whatever the timeout. When every invocation lets the time
  \<open>d\<close> pass and then fails abruptly, the wait \<open>W\<close> is not negative and
  \<open>d + W\<close> is positive, the loop invokes the check function exactly
  \<open>(T + W) div (d + W) + 1\<close> times (once when that quotient is negative) and then gives
  up. The count is \<open>T div W + 1\<close> only when \<open>(T + W) div (d + W) = T div W\<close>; it is
  \<open>T div W + 2\<close> when the invocations take no time.
\<close>

theorem attempts_until_give_up:
  fixes d :: nat
  assumes "Time_IsZero (stop p)"
  shows "(run n t Timer_Next f p w = Some res \<longrightarrow> 1 \<le> calls res)
       \<and> (clock w + Timeout p \<noteq> 0 \<and> 0 \<le> Wait p \<and> 0 < int d + Wait p
            \<and> (\<forall>i. (\<exists>a \<in> set (f i). abrupt a) \<and> spent (f i) = d)
            \<and> nat ((Timeout p + Wait p) div (int d + Wait p)) + 1 < n
          \<longrightarrow> (\<exists>r. run n t Timer_Next f p w = Some r \<and> how r \<noteq> Succeeded
                \<and> (returning t \<longrightarrow> how r = GaveUp)
                \<and> calls r = nat ((Timeout p + Wait p) div (int d + Wait p)) + 1))"
proof (intro conjI impI)
  assume "run n t Timer_Next f p w = Some res"
  with assms show "1 \<le> calls res"
    by (rule first_attempt_occurs)
next
  let ?N = "nat ((Timeout p + Wait p) div (int d + Wait p)) + 1"
  assume "clock w + Timeout p \<noteq> 0 \<and> 0 \<le> Wait p \<and> 0 < int d + Wait p
            \<and> (\<forall>i. (\<exists>a \<in> set (f i). abrupt a) \<and> spent (f i) = d) \<and> ?N < n"
  then have "\<exists>r. run n t Timer_Next f p w = Some r \<and> how r \<noteq> Succeeded \<and> calls r = ?N"
    using run_counts [OF assms] by blast
  then obtain r where r: "run n t Timer_Next f p w = Some r"
    and ns: "how r \<noteq> Succeeded" and c: "calls r = ?N"
    by blast
  have "returning t \<longrightarrow> how r \<noteq> Unwound"
    using run_loop_reports [OF r [unfolded run_def]] by blast
  with ns have "returning t \<longrightarrow> how r = GaveUp"
    by (cases "how r") simp_all
  with r ns c
  show "\<exists>r. run n t Timer_Next f p w = Some r \<and> how r \<noteq> Succeeded
          \<and> (returning t \<longrightarrow> how r = GaveUp) \<and> calls r = ?N"
    by blast
qed

theorem attempts_until_give_up_witness:
  "Time_IsZero (stop \<lparr>Timeout = 1000000000, Wait = 100000000, stop = 0\<rparr>)
   \<and> (\<exists>r. run 12 fakeT Timer_Next (failing_check 1000)
           \<lparr>Timeout = 1000000000, Wait = 100000000, stop = 0\<rparr>
           \<lparr>clock = 63897000000000000000, reporter = False\<rparr> = Some r
         \<and> how r = GaveUp \<and> calls r = 11)
   \<and> (\<exists>r. run 2 fakeT Timer_Next (failing_check 1000)
           \<lparr>Timeout = - 5, Wait = 100000000, stop = 0\<rparr>
           \<lparr>clock = 63897000000000000000, reporter = False\<rparr> = Some r
         \<and> how r = GaveUp \<and> calls r = 1)"
  using attempts_until_give_up [where p = "\<lparr>Timeout = 1000000000, Wait = 100000000, stop = 0\<rparr>"
      and d = 1000 and w = "\<lparr>clock = 63897000000000000000, reporter = False\<rparr>"
      and f = "failing_check 1000" and n = 12 and t = fakeT]
    attempts_until_give_up [where p = "\<lparr>Timeout = - 5, Wait = 100000000, stop = 0\<rparr>"
      and d = 1000 and w = "\<lparr>clock = 63897000000000000000, reporter = False\<rparr>"
      and f = "failing_check 1000" and n = 2 and t = fakeT]
  by (simp add: Time_IsZero_def failing_check_def returning_def fakeT_def) blast

text \<open>
  A timeout of 1 s, a wait of 300 ms and invocations that take a microsecond: the check
  function is invoked five times, at about 0, 300, 600, 900 and 1200 ms, since at 900 ms
  the deadline has not passed; \<open>T div W + 1\<close> is four.
\<close>

lemma run_counts_fakeT:
  fixes d :: nat
  assumes "clock w + Timeout p \<noteq> 0" and "0 \<le> Wait p" and "0 < int d + Wait p"
    and "nat ((Timeout p + Wait p) div (int d + Wait p)) + 1 < n" and "stop p = 0"
  shows "map_option calls (run n fakeT Timer_Next (failing_check d) p w)
           = Some (nat ((Timeout p + Wait p) div (int d + Wait p)) + 1)
       \<and> map_option how (run n fakeT Timer_Next (failing_check d) p w) = Some GaveUp"
proof -
  have "\<exists>r. run n fakeT Timer_Next (failing_check d) p w = Some r \<and> how r \<noteq> Succeeded
           \<and> calls r = nat ((Timeout p + Wait p) div (int d + Wait p)) + 1"
    using assms by (intro run_counts) (simp_all add: Time_IsZero_def failing_check_def)
  then obtain r where r: "run n fakeT Timer_Next (failing_check d) p w = Some r"
    and ns: "how r \<noteq> Succeeded"
    and c: "calls r = nat ((Timeout p + Wait p) div (int d + Wait p)) + 1"
    by blast
  have "returning fakeT"
    by (simp add: returning_def fakeT_def)
  then have "how r \<noteq> Unwound"
    using run_loop_reports [OF r [unfolded run_def]] by blast
  with ns have "how r = GaveUp"
    by (cases "how r") simp_all
  with r c show ?thesis by simp
qed

theorem attempts_until_give_up_counterexample:
  "map_option calls (run 6 fakeT Timer_Next (failing_check 1000)
      \<lparr>Timeout = 1000000000, Wait = 300000000, stop = 0\<rparr>
      \<lparr>clock = 63897000000000000000, reporter = False\<rparr>) = Some 5
   \<and> map_option how (run 6 fakeT Timer_Next (failing_check 1000)
      \<lparr>Timeout = 1000000000, Wait = 300000000, stop = 0\<rparr>
      \<lparr>clock = 63897000000000000000, reporter = False\<rparr>) = Some GaveUp
   \<and> nat (1000000000 div 300000000) + 1 = 4"
  using run_counts_fakeT [where d = 1000 and n = 6
      and p = "\<lparr>Timeout = 1000000000, Wait = 300000000, stop = 0\<rparr>"
      and w = "\<lparr>clock = 63897000000000000000, reporter = False\<rparr>"]
  by simp

text \<open>
  The same timer as in \<open>TestRunWithFail\<close> (1 s and 100 ms), with invocations that take
  20 ms: ten invocations, where \<open>T div W + 1\<close> is eleven.
\<close>

lemma slow_check_count:
  "map_option calls (run 12 fakeT Timer_Next (failing_check 20000000)
      \<lparr>Timeout = 1000000000, Wait = 100000000, stop = 0\<rparr>
      \<lparr>clock = 63897000000000000000, reporter = False\<rparr>) = Some 10"
  using run_counts_fakeT [where d = 20000000 and n = 12
      and p = "\<lparr>Timeout = 1000000000, Wait = 100000000, stop = 0\<rparr>"
      and w = "\<lparr>clock = 63897000000000000000, reporter = False\<rparr>"]
  by simp

text \<open>
  When the invocations take no time and the timeout is not negative, the count is
  \<open>T div W + 2\<close>: the attempt at the time \<open>(T div W) * W\<close> is followed by one more
  wait, since the deadline has passed only after it.
\<close>

lemma instant_check_count:
  assumes "Time_IsZero (stop p)" and "0 < clock w" and "0 \<le> Timeout p" and "0 < Wait p"
    and "\<forall>i. (\<exists>a \<in> set (f i). abrupt a) \<and> spent (f i) = 0"
    and "nat (Timeout p div Wait p) + 2 < n"
  shows "\<exists>r. run n t Timer_Next f p w = Some r \<and> how r \<noteq> Succeeded
           \<and> calls r = nat (Timeout p div Wait p) + 2"
proof -
  have q: "(Timeout p + Wait p) div Wait p = Timeout p div Wait p + 1"
    using div_add_self2 [of "Wait p" "Timeout p"] assms(4) by simp
  have "0 \<le> Timeout p div Wait p"
    using assms(3,4) by (simp add: pos_imp_zdiv_nonneg_iff)
  then have N: "nat ((Timeout p + Wait p) div (int 0 + Wait p)) + 1 = nat (Timeout p div Wait p) + 2"
    using q by simp
  have "\<exists>r. run n t Timer_Next f p w = Some r \<and> how r \<noteq> Succeeded
           \<and> calls r = nat ((Timeout p + Wait p) div (int 0 + Wait p)) + 1"
    using assms N by (intro run_counts) simp_all
  then show ?thesis
    unfolding N .
qed

text \<open>
  With the timer of \<open>Run\<close> (2 s and 25 ms) and invocations that take half a millisecond, the
  check function is invoked 80 times: the count that \<open>TestRunFail\<close> expects,
  \<open>int(timeout/wait)\<close>.
\<close>

lemma default_timer_count:
  "map_option calls (run 82 fakeT Timer_Next (failing_check 500000)
      \<lparr>Timeout = 2000000000, Wait = 25000000, stop = 0\<rparr>
      \<lparr>clock = 63897000000000000000, reporter = False\<rparr>) = Some 80
   \<and> nat (2000000000 div 25000000) = 80"
  using run_counts_fakeT [where d = 500000 and n = 82
      and p = "\<lparr>Timeout = 2000000000, Wait = 25000000, stop = 0\<rparr>"
      and w = "\<lparr>clock = 63897000000000000000, reporter = False\<rparr>"]
  by simp

lemma run_loop_elapsed:
  assumes "\<not> Time_IsZero (stop p)" and "0 \<le> Wait p" and "\<forall>i. int (cost (f i)) \<le> D"
    and "clock w \<le> stop p + Wait p + D"
    and "run_loop n t Timer_Next f p rr w tr = Some res"
  shows "clock (final res) \<le> stop p + Wait p + D"
  using assms(4,5)
proof (induction n arbitrary: rr w tr)
  case 0
  then show ?case by simp
next
  case (Suc n)
  show ?case
  proof (cases "clock w > stop p")
    case True
    then have nx: "Timer_Next p (run_fail t rr) w =
        (case run_fail t rr w of (Goexit, w') \<Rightarrow> (Goexit, p, w')
         | (Returns u, w') \<Rightarrow> (Returns False, p, w'))"
      using assms(1) by (simp add: Timer_Next_expired Time_After_def time_Now_def)
    have "final res = snd (run_fail t rr w)"
    proof (cases "fst (run_fail t rr w)")
      case Goexit
      then have "Timer_Next p (run_fail t rr) w = (Goexit, p, snd (run_fail t rr w))"
        using nx by (simp add: case_prod_beta)
      from run_loop_Suc_unwound [where pol = Timer_Next, OF this, of n f tr] Suc.prems(2)
      show ?thesis by auto
    next
      case (Returns u)
      then have "Timer_Next p (run_fail t rr) w = (Returns False, p, snd (run_fail t rr w))"
        using nx by (simp add: case_prod_beta)
      from run_loop_Suc_give_up [where pol = Timer_Next, OF this, of n f tr] Suc.prems(2)
      show ?thesis by auto
    qed
    then show ?thesis
      using Suc.prems(1) by (simp add: run_fail_clock)
  next
    case False
    let ?w' = "time_Sleep (Wait p) w"
    let ?rr' = "fst (go_wait (exec (f (length tr)) rr ?w'))"
    let ?w'' = "snd (go_wait (exec (f (length tr)) rr ?w'))"
    have nx: "Timer_Next p (run_fail t rr) w = (Returns True, p, ?w')"
      using assms(1) False by (simp add: Timer_Next_wait Time_After_def time_Now_def)
    have "int (spent (f (length tr))) \<le> D"
      using assms(3) spent_le_cost [of "f (length tr)"] by (meson of_nat_mono order_trans)
    then have ck: "clock ?w'' \<le> stop p + Wait p + D"
      using exec_clock [of "f (length tr)" rr ?w'] assms(2) False
      by (simp add: go_wait_def time_Sleep_def)
    show ?thesis
    proof (cases "fail ?rr'")
      case False
      from run_loop_Suc_succeed [where pol = Timer_Next and f = f and tr = tr and n = n, OF nx False]
        Suc.prems(2) ck
      show ?thesis by auto
    next
      case fl: True
      have "run_loop n t Timer_Next f p (?rr'\<lparr>fail := False\<rparr>) ?w'' (tr @ [(rr, ?rr')]) = Some res"
        using run_loop_Suc_continue [where pol = Timer_Next and f = f and tr = tr and n = n, OF nx fl]
          Suc.prems(2) by simp
      from Suc.IH [OF ck this] show ?thesis .
    qed
  qed
qed

lemma run_loop_ends:
  assumes "\<not> Time_IsZero (stop p)" and "0 < Wait p"
    and "(if clock w > stop p then 0 else nat ((stop p - clock w) div Wait p) + 1) < n"
  shows "run_loop n t Timer_Next f p rr w tr \<noteq> None"
  using assms(3)
proof (induction n arbitrary: rr w tr)
  case 0
  then show ?case by simp
next
  case (Suc n)
  show ?case
  proof (cases "clock w > stop p")
    case True
    then have nx: "Timer_Next p (run_fail t rr) w =
        (case run_fail t rr w of (Goexit, w') \<Rightarrow> (Goexit, p, w')
         | (Returns u, w') \<Rightarrow> (Returns False, p, w'))"
      using assms(1) by (simp add: Timer_Next_expired Time_After_def time_Now_def)
    show ?thesis
    proof (cases "fst (run_fail t rr w)")
      case Goexit
      then have "Timer_Next p (run_fail t rr) w = (Goexit, p, snd (run_fail t rr w))"
        using nx by (simp add: case_prod_beta)
      from run_loop_Suc_unwound [where pol = Timer_Next, OF this, of n f tr]
      show ?thesis by simp
    next
      case (Returns u)
      then have "Timer_Next p (run_fail t rr) w = (Returns False, p, snd (run_fail t rr w))"
        using nx by (simp add: case_prod_beta)
      from run_loop_Suc_give_up [where pol = Timer_Next, OF this, of n f tr]
      show ?thesis by simp
    qed
  next
    case False
    let ?w' = "time_Sleep (Wait p) w"
    let ?rr' = "fst (go_wait (exec (f (length tr)) rr ?w'))"
    let ?w'' = "snd (go_wait (exec (f (length tr)) rr ?w'))"
    have nx: "Timer_Next p (run_fail t rr) w = (Returns True, p, ?w')"
      using assms(1) False by (simp add: Timer_Next_wait Time_After_def time_Now_def)
    have ck: "clock w + Wait p \<le> clock ?w''"
      using exec_clock [of "f (length tr)" rr ?w'] assms(2)
      by (simp add: go_wait_def time_Sleep_def)
    show ?thesis
    proof (cases "fail ?rr'")
      case False
      from run_loop_Suc_succeed [where pol = Timer_Next and f = f and tr = tr and n = n, OF nx False]
      show ?thesis by simp
    next
      case fl: True
      have step: "run_loop (Suc n) t Timer_Next f p rr w tr
          = run_loop n t Timer_Next f p (?rr'\<lparr>fail := False\<rparr>) ?w'' (tr @ [(rr, ?rr')])"
        by (rule run_loop_Suc_continue [where pol = Timer_Next and f = f and tr = tr and n = n, OF nx fl])
      have "(if clock ?w'' > stop p then 0 else nat ((stop p - clock ?w'') div Wait p) + 1)
              \<le> nat ((stop p - clock w) div Wait p)"
      proof (cases "clock ?w'' > stop p")
        case True
        then show ?thesis by simp
      next
        case late: False
        have "(stop p - clock ?w'') div Wait p \<le> (stop p - clock w - Wait p) div Wait p"
          using ck assms(2) by (intro zdiv_mono1) simp_all
        moreover have "nat ((stop p - clock w - Wait p) div Wait p) + 1 = nat ((stop p - clock w) div Wait p)"
        proof -
          have "\<not> Wait p > stop p - clock w"
            using late ck by simp
          then show ?thesis
            using remaining_step [where x = "stop p - clock w" and D = "Wait p", OF assms(2)]
            by simp
        qed
        ultimately show ?thesis using late by simp
      qed
      moreover have "nat ((stop p - clock w) div Wait p) < n"
        using Suc.prems False by simp
      ultimately have "(if clock ?w'' > stop p then 0 else nat ((stop p - clock ?w'') div Wait p) + 1) < n"
        by (rule le_less_trans)
      from Suc.IH [OF this] show ?thesis
        unfolding step .
    qed
  qed
qed


lemma run_elapsed:
  assumes "Time_IsZero (stop p)" and "0 < clock w" and "0 \<le> Timeout p" and "0 \<le> Wait p"
    and "\<forall>i. int (cost (f i)) \<le> D"
    and "run n t Timer_Next f p w = Some res"
  shows "elapsed w res \<le> Timeout p + Wait p + D"
proof -
  let ?rr = "\<lparr>fail = False, output = []\<rparr>"
  let ?p' = "p\<lparr>stop := clock w + Timeout p\<rparr>"
  let ?rr' = "fst (go_wait (exec (f (length ([] :: (R \<times> R) list))) ?rr w))"
  let ?w'' = "snd (go_wait (exec (f (length ([] :: (R \<times> R) list))) ?rr w))"
  have nx: "Timer_Next p (run_fail t ?rr) w = (Returns True, ?p', w)"
    using assms(1) by (rule Timer_Next_fresh)
  obtain m where n: "n = Suc m"
    using assms(6) by (cases n) (simp_all add: run_def)
  have "int (spent (f (length ([] :: (R \<times> R) list)))) \<le> D"
    using assms(5) spent_le_cost [of "f (length ([] :: (R \<times> R) list))"]
    by (meson of_nat_mono order_trans)
  then have ck: "clock ?w'' \<le> clock w + D"
    using exec_clock [of "f (length ([] :: (R \<times> R) list))" ?rr w] by (simp add: go_wait_def)
  show ?thesis
  proof (cases "fail ?rr'")
    case False
    from run_loop_Suc_succeed [where pol = Timer_Next and f = f and tr = "[]" and n = m, OF nx False]
      assms(6) [unfolded run_def n]
    have "final res = ?w''" by auto
    then show ?thesis
      using ck assms(3,4) by (simp add: elapsed_def)
  next
    case fl: True
    have loop: "run_loop m t Timer_Next f ?p' (?rr'\<lparr>fail := False\<rparr>) ?w'' ([] @ [(?rr, ?rr')]) = Some res"
      using run_loop_Suc_continue [where pol = Timer_Next and f = f and tr = "[]" and n = m, OF nx fl]
        assms(6) [unfolded run_def n] by simp
    have "clock (final res) \<le> stop ?p' + Wait ?p' + D"
    proof (rule run_loop_elapsed [OF _ _ _ _ loop])
      show "\<not> Time_IsZero (stop ?p')" using assms(2,3) by (simp add: Time_IsZero_def)
      show "0 \<le> Wait ?p'" using assms(4) by simp
      show "\<forall>i. int (cost (f i)) \<le> D" by (rule assms(5))
      show "clock ?w'' \<le> stop ?p' + Wait ?p' + D" using ck assms(3,4) by simp
    qed
    then show ?thesis by (simp add: elapsed_def)
  qed
qed

lemma run_ends:
  assumes "Time_IsZero (stop p)" and "0 < clock w" and "0 \<le> Timeout p" and "0 < Wait p"
  shows "run (nat (Timeout p div Wait p) + 3) t Timer_Next f p w \<noteq> None"
proof -
  let ?rr = "\<lparr>fail = False, output = []\<rparr>"
  let ?p' = "p\<lparr>stop := clock w + Timeout p\<rparr>"
  let ?rr' = "fst (go_wait (exec (f (length ([] :: (R \<times> R) list))) ?rr w))"
  let ?w'' = "snd (go_wait (exec (f (length ([] :: (R \<times> R) list))) ?rr w))"
  let ?m = "nat (Timeout p div Wait p) + 2"
  have n: "nat (Timeout p div Wait p) + 3 = Suc ?m"
    by simp
  have nx: "Timer_Next p (run_fail t ?rr) w = (Returns True, ?p', w)"
    using assms(1) by (rule Timer_Next_fresh)
  have ck: "clock w \<le> clock ?w''"
    using exec_clock [of "f (length ([] :: (R \<times> R) list))" ?rr w] by (simp add: go_wait_def)
  show ?thesis
  proof (cases "fail ?rr'")
    case False
    from run_loop_Suc_succeed [where pol = Timer_Next and f = f and tr = "[]" and n = ?m, OF nx False]
    show ?thesis unfolding run_def n by simp
  next
    case fl: True
    have step: "run (Suc ?m) t Timer_Next f p w
        = run_loop ?m t Timer_Next f ?p' (?rr'\<lparr>fail := False\<rparr>) ?w'' ([] @ [(?rr, ?rr')])"
      unfolding run_def
      by (rule run_loop_Suc_continue [where pol = Timer_Next and f = f and tr = "[]" and n = ?m, OF nx fl])
    have "run_loop ?m t Timer_Next f ?p' (?rr'\<lparr>fail := False\<rparr>) ?w'' ([] @ [(?rr, ?rr')]) \<noteq> None"
    proof (rule run_loop_ends)
      show "\<not> Time_IsZero (stop ?p')" using assms(2,3) by (simp add: Time_IsZero_def)
      show "0 < Wait ?p'" using assms(4) by simp
      have "(stop ?p' - clock ?w'') div Wait ?p' \<le> Timeout p div Wait p"
        using ck assms(4) by (simp add: zdiv_mono1)
      then have "nat ((stop ?p' - clock ?w'') div Wait ?p') \<le> nat (Timeout p div Wait p)"
        by (rule nat_mono)
      then show "(if clock ?w'' > stop ?p' then 0
                  else nat ((stop ?p' - clock ?w'') div Wait ?p') + 1) < ?m"
        by simp
    qed
    then show ?thesis
      unfolding n step .
  qed
qed

text \<open>
  C10, as the code has it: with a fresh timer, a timeout and a wait that are not negative
  and a check function whose invocations take at most \<open>D\<close> each, a run that ends has
  taken at most \<open>T + W + D\<close> from its start; and when the wait is positive the run
  ends, within \<open>T div W + 3\<close> iterations. Nothing interrupts an attempt, so the time of
  the last attempt comes on top of \<open>T + W\<close>.
\<close>

theorem elapsed_time_bound:
  assumes "Time_IsZero (stop p)" and "0 < clock w" and "0 \<le> Timeout p" and "0 \<le> Wait p"
    and "\<forall>i. int (cost (f i)) \<le> D"
  shows "(run n t Timer_Next f p w = Some res \<longrightarrow> elapsed w res \<le> Timeout p + Wait p + D)
       \<and> (0 < Wait p \<longrightarrow> run (nat (Timeout p div Wait p) + 3) t Timer_Next f p w \<noteq> None)"
  using run_elapsed [OF assms] run_ends [OF assms(1-3)] by blast

theorem elapsed_time_bound_witness:
  "Time_IsZero (stop \<lparr>Timeout = 1000000000, Wait = 100000000, stop = 0\<rparr>)
   \<and> (\<exists>res. run 13 fakeT Timer_Next (failing_check 150000000)
          \<lparr>Timeout = 1000000000, Wait = 100000000, stop = 0\<rparr>
          \<lparr>clock = 63897000000000000000, reporter = False\<rparr> = Some res
        \<and> elapsed \<lparr>clock = 63897000000000000000, reporter = False\<rparr> res
            \<le> 1000000000 + 100000000 + 150000000)"
proof -
  let ?p = "\<lparr>Timeout = 1000000000, Wait = 100000000, stop = 0\<rparr>"
  let ?w = "\<lparr>clock = 63897000000000000000, reporter = False\<rparr>"
  have fresh: "Time_IsZero (stop ?p)" and clk: "0 < clock ?w"
    and tmo: "0 \<le> Timeout ?p" and wt: "0 \<le> Wait ?p"
    and cst: "\<forall>i. int (cost (failing_check 150000000 i)) \<le> 150000000"
    by (simp_all add: Time_IsZero_def failing_check_def)
  note bound = elapsed_time_bound [OF fresh clk tmo wt cst, where t = fakeT]
  have "run 13 fakeT Timer_Next (failing_check 150000000) ?p ?w \<noteq> None"
    using bound [of 0] by simp
  then obtain res where res: "run 13 fakeT Timer_Next (failing_check 150000000) ?p ?w = Some res"
    by blast
  then have "elapsed ?w res \<le> 1000000000 + 100000000 + 150000000"
    using bound [of 13 res] by simp
  with fresh res show ?thesis by blast
qed

theorem elapsed_time_bound_counterexample:
  "map_option (elapsed \<lparr>clock = 63897000000000000000, reporter = False\<rparr>)
     (run (Suc 0) fakeT Timer_Next (passing_check 2000000000)
        \<lparr>Timeout = 1000000000, Wait = 100000000, stop = 0\<rparr>
        \<lparr>clock = 63897000000000000000, reporter = False\<rparr>) = Some 2000000000
   \<and> map_option how
     (run (Suc 0) fakeT Timer_Next (passing_check 2000000000)
        \<lparr>Timeout = 1000000000, Wait = 100000000, stop = 0\<rparr>
        \<lparr>clock = 63897000000000000000, reporter = False\<rparr>) = Some Succeeded
   \<and> \<not> (2000000000 \<le> 1000000000 + (100000000 :: int))"
  by (simp add: run_eval elapsed_def)

section \<open>What the reporter sees\<close>

lemma run_fail_world:
  "reporter w1 = reporter w2 \<Longrightarrow>
     fst (run_fail t rr w1) = fst (run_fail t rr w2)
     \<and> reporter (snd (run_fail t rr w1)) = reporter (snd (run_fail t rr w2))"
  by (simp add: run_fail_def Let_def case_prod_beta split: ctl.splits)

lemma run_fail_calls:
  "reporter (snd (run_fail t rr w)) =
     (if dedup (output rr) = [] then snd (T_FailNow t (reporter w))
      else (case T_Log t (dedup (output rr)) (reporter w) of
              (Goexit, s) \<Rightarrow> s
            | (Returns u, s) \<Rightarrow> snd (T_FailNow t s)))"
  by (simp add: run_fail_def Let_def case_prod_beta split: ctl.splits)

lemma run_fail_ends:
  "fst (run_fail t rr w) =
     (if dedup (output rr) = [] then fst (T_FailNow t (reporter w))
      else (case T_Log t (dedup (output rr)) (reporter w) of
              (Goexit, s) \<Rightarrow> Goexit
            | (Returns u, s) \<Rightarrow> fst (T_FailNow t s)))"
  by (simp add: run_fail_def Let_def case_prod_beta split: ctl.splits)

lemma run_loop_reports_any:
  assumes "run_loop n t Timer_Next f p rr w tr = Some res"
  shows "(how res = Succeeded \<longrightarrow> reporter (final res) = reporter w)
       \<and> (how res \<noteq> Succeeded \<longrightarrow>
            reporter (final res) = reporter (snd (run_fail t (ctx res) w))
            \<and> (how res = Unwound) = (fst (run_fail t (ctx res) w) = Goexit))"
  using assms
proof (induction n arbitrary: p rr w tr)
  case 0
  then show ?case by simp
next
  case (Suc n)
  show ?case
  proof (cases "\<not> Time_IsZero (stop p) \<and> Time_After (time_Now w) (stop p)")
    case True
    then have nx: "Timer_Next p (run_fail t rr) w =
        (case run_fail t rr w of (Goexit, w') \<Rightarrow> (Goexit, p, w')
         | (Returns u, w') \<Rightarrow> (Returns False, p, w'))"
      by (simp add: Timer_Next_expired)
    show ?thesis
    proof (cases "fst (run_fail t rr w)")
      case Goexit
      then have "Timer_Next p (run_fail t rr) w = (Goexit, p, snd (run_fail t rr w))"
        using nx by (simp add: case_prod_beta)
      from run_loop_Suc_unwound [where pol = Timer_Next, OF this, of n f tr] Suc.prems Goexit
      show ?thesis by auto
    next
      case (Returns u)
      then have "Timer_Next p (run_fail t rr) w = (Returns False, p, snd (run_fail t rr w))"
        using nx by (simp add: case_prod_beta)
      from run_loop_Suc_give_up [where pol = Timer_Next, OF this, of n f tr] Suc.prems Returns
      show ?thesis by auto
    qed
  next
    case False
    then obtain p' w' where nx: "Timer_Next p (run_fail t rr) w = (Returns True, p', w')"
      using Timer_Next_fresh Timer_Next_wait by (metis (full_types))
    then have rep: "reporter w' = reporter w"
      using Timer_Next_true by blast
    let ?rr' = "fst (go_wait (exec (f (length tr)) rr w'))"
    let ?w'' = "snd (go_wait (exec (f (length tr)) rr w'))"
    have rep': "reporter ?w'' = reporter w"
      using exec_reporter [of "f (length tr)" rr w'] rep by (simp add: go_wait_def)
    show ?thesis
    proof (cases "fail ?rr'")
      case False
      from run_loop_Suc_succeed [where pol = Timer_Next and f = f and tr = tr and n = n, OF nx False]
        Suc.prems rep'
      show ?thesis by auto
    next
      case fl: True
      have "run_loop n t Timer_Next f p' (?rr'\<lparr>fail := False\<rparr>) ?w'' (tr @ [(rr, ?rr')]) = Some res"
        using run_loop_Suc_continue [where pol = Timer_Next and f = f and tr = tr and n = n, OF nx fl]
          Suc.prems by simp
      from Suc.IH [OF this] run_fail_world [OF rep', of t "ctx res"] rep'
      show ?thesis by simp
    qed
  qed
qed

text \<open>
  C5, as the code has it: in a run with the timer that ends, for every reporter, a success
  leaves the reporter untouched; otherwise the reporter has seen exactly this, once:
  \<open>Log\<close> with the deduplicated log of the context, only when that is not empty, and
  then \<open>FailNow\<close>, unless \<open>Log\<close> itself unwound its caller. The run ends unwound
  inside \<open>Next\<close> exactly when one of these two calls unwinds its caller, as
  \<open>FailNow\<close> of package testing does; with a reporter whose operations return, the
  run returns, after a success and after giving up alike. With a fresh timer, a timeout
  that is not negative and a positive wait, the run ends.
\<close>

theorem give_up_reports_once:
  "(run n t Timer_Next f p w = Some res \<longrightarrow>
      (how res = Succeeded \<longrightarrow> reporter (final res) = reporter w)
    \<and> (how res \<noteq> Succeeded \<longrightarrow>
          reporter (final res) =
            (if dedup (output (ctx res)) = [] then snd (T_FailNow t (reporter w))
             else (case T_Log t (dedup (output (ctx res))) (reporter w) of
                     (Goexit, s) \<Rightarrow> s
                   | (Returns u, s) \<Rightarrow> snd (T_FailNow t s)))
        \<and> (how res = Unwound) =
            ((if dedup (output (ctx res)) = [] then fst (T_FailNow t (reporter w))
              else (case T_Log t (dedup (output (ctx res))) (reporter w) of
                      (Goexit, s) \<Rightarrow> Goexit
                    | (Returns u, s) \<Rightarrow> fst (T_FailNow t s))) = Goexit))
    \<and> (returning t \<longrightarrow>
          how res \<noteq> Unwound
        \<and> (how res = GaveUp \<longrightarrow>
              reporter (final res) =
                snd (T_FailNow t
                  (if dedup (output (ctx res)) \<noteq> []
                   then snd (T_Log t (dedup (output (ctx res))) (reporter w))
                   else reporter w)))))
   \<and> (Time_IsZero (stop p) \<and> 0 < clock w \<and> 0 \<le> Timeout p \<and> 0 < Wait p \<longrightarrow>
        run (nat (Timeout p div Wait p) + 3) t Timer_Next f p w \<noteq> None)"
proof (intro conjI impI)
  assume r: "run n t Timer_Next f p w = Some res"
  note any = run_loop_reports_any [OF r [unfolded run_def]]
  {
    assume "how res = Succeeded"
    with any show "reporter (final res) = reporter w" by blast
  }
  {
    assume "how res \<noteq> Succeeded"
    with any have a: "reporter (final res) = reporter (snd (run_fail t (ctx res) w))"
      and b: "(how res = Unwound) = (fst (run_fail t (ctx res) w) = Goexit)"
      by blast+
    from a show "reporter (final res) =
            (if dedup (output (ctx res)) = [] then snd (T_FailNow t (reporter w))
             else (case T_Log t (dedup (output (ctx res))) (reporter w) of
                     (Goexit, s) \<Rightarrow> s
                   | (Returns u, s) \<Rightarrow> snd (T_FailNow t s)))"
      by (simp only: run_fail_calls)
    from b show "(how res = Unwound) =
            ((if dedup (output (ctx res)) = [] then fst (T_FailNow t (reporter w))
              else (case T_Log t (dedup (output (ctx res))) (reporter w) of
                      (Goexit, s) \<Rightarrow> Goexit
                    | (Returns u, s) \<Rightarrow> fst (T_FailNow t s))) = Goexit)"
      by (simp only: run_fail_ends)
  }
  {
    assume ret: "returning t"
    note old = run_loop_reports [OF r [unfolded run_def] ret]
    from old show "how res \<noteq> Unwound" by blast
    {
      assume "how res = GaveUp"
      with old show "reporter (final res) =
                snd (T_FailNow t
                  (if dedup (output (ctx res)) \<noteq> []
                   then snd (T_Log t (dedup (output (ctx res))) (reporter w))
                   else reporter w))"
        by blast
    }
  }
next
  assume "Time_IsZero (stop p) \<and> 0 < clock w \<and> 0 \<le> Timeout p \<and> 0 < Wait p"
  then show "run (nat (Timeout p div Wait p) + 3) t Timer_Next f p w \<noteq> None"
    by (intro run_ends) simp_all
qed

theorem give_up_reports_once_witness:
  "(\<exists>res. run (Suc (Suc (Suc 0))) tracer Timer_Next (failing_check 600)
           \<lparr>Timeout = 1000, Wait = 200, stop = 0\<rparr> \<lparr>clock = 9, reporter = []\<rparr> = Some res
         \<and> how res = GaveUp
         \<and> reporter (final res) = [LogCall (''retry_test.go:19: fail'' @ [newline]), FailNowCall])
   \<and> (\<exists>res. run (Suc (Suc (Suc 0))) exitingT Timer_Next (failing_check 600)
           \<lparr>Timeout = 1000, Wait = 200, stop = 0\<rparr> \<lparr>clock = 9, reporter = []\<rparr> = Some res
         \<and> how res = Unwound
         \<and> reporter (final res) = [LogCall (''retry_test.go:19: fail'' @ [newline]), FailNowCall])
   \<and> (\<exists>res. run (Suc 0) tracer Timer_Next (passing_check 3)
           \<lparr>Timeout = 1000, Wait = 200, stop = 0\<rparr> \<lparr>clock = 9, reporter = []\<rparr> = Some res
         \<and> how res = Succeeded \<and> reporter (final res) = [])
   \<and> run (nat (1000 div 200) + 3) tracer Timer_Next (failing_check 600)
           \<lparr>Timeout = 1000, Wait = 200, stop = 0\<rparr> \<lparr>clock = 9, reporter = []\<rparr> \<noteq> None"
proof -
  let ?p = "\<lparr>Timeout = 1000, Wait = 200, stop = 0\<rparr>"
  let ?w = "\<lparr>clock = 9, reporter = []\<rparr> :: event list world"
  let ?out = "[''retry_test.go:19: fail'', ''retry_test.go:19: fail'']"
  obtain r1 where r1: "run (Suc (Suc (Suc 0))) tracer Timer_Next (failing_check 600) ?p ?w = Some r1"
    and h1: "how r1 = GaveUp" and c1: "ctx r1 = \<lparr>fail = False, output = ?out\<rparr>"
    by (simp add: run_eval)
  obtain r2 where r2: "run (Suc (Suc (Suc 0))) exitingT Timer_Next (failing_check 600) ?p ?w = Some r2"
    and h2: "how r2 = Unwound" and c2: "ctx r2 = \<lparr>fail = False, output = ?out\<rparr>"
    by (simp add: run_eval)
  obtain r3 where r3: "run (Suc 0) tracer Timer_Next (passing_check 3) ?p ?w = Some r3"
    and h3: "how r3 = Succeeded"
    by (simp add: run_eval)
  have "reporter (final r1) = [LogCall (''retry_test.go:19: fail'' @ [newline]), FailNowCall]"
    using give_up_reports_once [where n = "Suc (Suc (Suc 0))" and t = tracer
        and f = "failing_check 600" and p = ?p and w = ?w and res = r1] r1 h1 c1
    by (simp add: tracer_def dedup_def dedup_count_def dedup_write_def newline_def)
  moreover have "reporter (final r2) = [LogCall (''retry_test.go:19: fail'' @ [newline]), FailNowCall]"
    using give_up_reports_once [where n = "Suc (Suc (Suc 0))" and t = exitingT
        and f = "failing_check 600" and p = ?p and w = ?w and res = r2] r2 h2 c2
    by (simp add: exitingT_def dedup_def dedup_count_def dedup_write_def newline_def)
  moreover have "reporter (final r3) = []"
    using give_up_reports_once [where n = "Suc 0" and t = tracer
        and f = "passing_check 3" and p = ?p and w = ?w and res = r3] r3 h3
    by simp
  moreover have "run (nat (1000 div 200) + 3) tracer Timer_Next (failing_check 600) ?p ?w \<noteq> None"
    using give_up_reports_once [where t = tracer and f = "failing_check 600" and p = ?p and w = ?w]
    by (simp add: Time_IsZero_def)
  ultimately show ?thesis
    using r1 h1 r2 h2 r3 h3 by auto
qed

theorem give_up_reports_once_counterexample:
  "map_option how (run (Suc (Suc (Suc 0))) exitingT Timer_Next (failing_check 600)
      \<lparr>Timeout = 1000, Wait = 200, stop = 0\<rparr> \<lparr>clock = 9, reporter = []\<rparr>) = Some Unwound
   \<and> map_option reported (run (Suc (Suc (Suc 0))) exitingT Timer_Next (failing_check 600)
      \<lparr>Timeout = 1000, Wait = 200, stop = 0\<rparr> \<lparr>clock = 9, reporter = []\<rparr>)
       = Some [LogCall (''retry_test.go:19: fail'' @ [newline]), FailNowCall]
   \<and> map_option calls (run (Suc (Suc (Suc 0))) exitingT Timer_Next (failing_check 600)
      \<lparr>Timeout = 1000, Wait = 200, stop = 0\<rparr> \<lparr>clock = 9, reporter = []\<rparr>) = Some 2"
  by (simp add: run_eval calls_def reported_def)

end
